theory Spec2Isabelle
  imports Complex_Main "HOL-Library.List_Lexorder" "HOL-Library.Sublist" "HOL-Library.Multiset"
begin

section \<open>Python values, dictionaries and the object store\<close>

text \<open>
  A Python \<open>str\<close> is a sequence of Unicode code points; two of them compare
  lexicographically by code point, which is the order of \<open>List_Lexorder\<close> on
  \<open>nat list\<close>. Dictionary keys of the program are ASCII literals and are kept as
  HOL strings.

  The values that the program stores in an article are strings, floats and (from a JSON
  \<open>null\<close>) \<open>None\<close>. A float is only stored, compared and copied, never computed
  with, so it is represented by the real number it denotes.
\<close>

type_synonym pystr = "nat list"

datatype pyval = PStr pystr | PFloat real | PNone

datatype error =
    KeyError
  | TypeError
  | AttributeError
  | UnboundLocalError
  | JSONDecodeError
  | ClassifierError

type_synonym pydict = "string \<rightharpoonup> pyval"

text \<open>\<open>d[k]\<close> raises \<open>KeyError\<close> on a missing key; \<open>d.get(k, dflt)\<close> does not.\<close>

definition getitem :: "pydict \<Rightarrow> string \<Rightarrow> error + pyval" where
  "getitem d k = (case d k of None \<Rightarrow> Inl KeyError | Some v \<Rightarrow> Inr v)"

definition get_default :: "pydict \<Rightarrow> string \<Rightarrow> pyval \<Rightarrow> pyval" where
  "get_default d k dflt = (case d k of None \<Rightarrow> dflt | Some v \<Rightarrow> v)"

text \<open>
  Articles are mutable \<open>dict\<close> objects that several lists refer to, so they live in a
  store: \<open>objs\<close> maps a reference to the dictionary it denotes, \<open>nxt\<close> is the next
  unused reference, and \<open>calls\<close> records the arguments the external sentiment
  classifier has been invoked with, oldest first. A list of articles is a list of
  references.
\<close>

type_synonym ref = nat

record store =
  objs :: "ref \<Rightarrow> pydict"
  nxt :: ref
  calls :: "pyval list"

definition new_dict :: "store \<Rightarrow> pydict \<Rightarrow> store \<times> ref" where
  "new_dict s d = (s\<lparr>objs := (objs s)(nxt s := d), nxt := Suc (nxt s)\<rparr>, nxt s)"

definition setitem :: "store \<Rightarrow> ref \<Rightarrow> string \<Rightarrow> pyval \<Rightarrow> store" where
  "setitem s r k v = s\<lparr>objs := (objs s)(r := (objs s r)(k \<mapsto> v))\<rparr>"

section \<open>NewsFetcher\<close>

text \<open>
  The HTTP layer is external. \<open>session.get\<close> either raises a
  \<open>requests.exceptions.RequestException\<close> (a connection error, a timeout, or the
  \<open>RetryError\<close> that the mounted \<open>Retry(total=5, status_forcelist=[500, 502, 503, 504])\<close>
  adapter raises once its retries are exhausted) or returns a response. A response
  carries its status code and the outcome of \<open>response.json()\<close>: \<open>None\<close> when the
  body is not JSON, otherwise the value under the key \<open>articles\<close> of the decoded
  object (\<open>None\<close> when the key is absent), a list of raw article objects.
\<close>

datatype request_exception = ConnectionError | Timeout | RetryError

record response =
  status_code :: nat
  json :: "pydict list option option"

datatype http_outcome = GetRaises request_exception | GetReturns response

text \<open>\<open>response.raise_for_status()\<close> raises \<open>HTTPError\<close> for a 4xx or 5xx status.\<close>

definition raise_for_status :: "response \<Rightarrow> bool" where
  "raise_for_status r = (400 \<le> status_code r \<and> status_code r < 600)"

text \<open>
  The list comprehension of \<open>fetch_news\<close>: one new dictionary with the keys
  \<open>title\<close>, \<open>link\<close> and \<open>published\<close> per raw article, read from the raw keys
  \<open>title\<close>, \<open>url\<close> and \<open>publishedAt\<close>.
\<close>

fun fetched_articles :: "store \<Rightarrow> pydict list \<Rightarrow> error + (store \<times> ref list)" where
  "fetched_articles s [] = Inr (s, [])"
| "fetched_articles s (article # articles) =
     (case getitem article ''title'' of Inl e \<Rightarrow> Inl e | Inr t \<Rightarrow>
     (case getitem article ''url'' of Inl e \<Rightarrow> Inl e | Inr u \<Rightarrow>
     (case getitem article ''publishedAt'' of Inl e \<Rightarrow> Inl e | Inr p \<Rightarrow>
     (let (s1, r) = new_dict s [''title'' \<mapsto> t, ''link'' \<mapsto> u, ''published'' \<mapsto> p]
      in (case fetched_articles s1 articles of
            Inl e \<Rightarrow> Inl e
          | Inr (s2, rs) \<Rightarrow> Inr (s2, r # rs))))))"

text \<open>
  \<open>fetch_news\<close>. The local variable \<open>response\<close> is bound only when \<open>session.get\<close>
  returned; the handler of \<open>RequestException\<close> reads it
  (\<open>if response is not None\<close>) before it returns the empty list, and reading an
  unbound local raises \<open>UnboundLocalError\<close>, which the handler does not catch.
\<close>

definition fetch_news :: "(pystr \<Rightarrow> http_outcome) \<Rightarrow> store \<Rightarrow> pystr \<Rightarrow> error + (store \<times> ref list)" where
  "fetch_news session_get s query =
     (let outcome = session_get query;
          response = (case outcome of GetRaises e \<Rightarrow> None | GetReturns r \<Rightarrow> Some r);
          request_exception =
            (case outcome of GetRaises e \<Rightarrow> True | GetReturns r \<Rightarrow> raise_for_status r)
      in if request_exception then
           (case response of None \<Rightarrow> Inl UnboundLocalError | Some r \<Rightarrow> Inr (s, []))
         else
           (case response of
              None \<Rightarrow> Inl UnboundLocalError
            | Some r \<Rightarrow>
               (case json r of
                  None \<Rightarrow> Inl JSONDecodeError
                | Some body \<Rightarrow>
                    fetched_articles s (case body of None \<Rightarrow> [] | Some articles \<Rightarrow> articles))))"

definition query_vish :: pystr where
  "query_vish = [1042, 1099, 1089, 1096, 1072, 1103, 32, 1080, 1085, 1078, 1077, 1085, 1077,
     1088, 1085, 1072, 1103, 32, 1096, 1082, 1086, 1083, 1072]"

definition query_high_speed :: pystr where
  "query_high_speed = [1042, 1057, 1052]"

definition query_rzd :: pystr where
  "query_rzd = [1056, 1046, 1044, 32, 1056, 1086, 1089, 1089, 1080, 1081, 1089, 1082, 1080,
     1077, 32, 1046, 1077, 1083, 1077, 1079, 1085, 1099, 1077, 32, 1076, 1086, 1088, 1086,
     1075, 1080]"

definition fetch_vish_news :: "(pystr \<Rightarrow> http_outcome) \<Rightarrow> store \<Rightarrow> error + (store \<times> ref list)" where
  "fetch_vish_news session_get s = fetch_news session_get s query_vish"

definition fetch_high_speed_railways :: "(pystr \<Rightarrow> http_outcome) \<Rightarrow> store \<Rightarrow> error + (store \<times> ref list)" where
  "fetch_high_speed_railways session_get s = fetch_news session_get s query_high_speed"

definition fetch_russian_railways :: "(pystr \<Rightarrow> http_outcome) \<Rightarrow> store \<Rightarrow> error + (store \<times> ref list)" where
  "fetch_russian_railways session_get s = fetch_news session_get s query_rzd"

section \<open>NewsParser\<close>

subsection \<open>\<open>filter_and_sort_articles\<close>\<close>

text \<open>
  \<open>sorted(articles, key=lambda x: x['published'], reverse=True)\<close>. The key is computed
  for every element first, in order, so a missing key raises \<open>KeyError\<close> whatever
  the length. The sort then compares keys with \<open><\<close>: strings among themselves and
  floats among themselves are ordered, every other pair raises \<open>TypeError\<close>, and a
  sort of two or more elements has to compare each of them with another one. With
  \<open>reverse=True\<close> the list is reversed, sorted stably in ascending order and reversed
  again, which keeps elements with equal keys in their input order.
\<close>

fun published_keys :: "store \<Rightarrow> ref list \<Rightarrow> error + pyval list" where
  "published_keys s [] = Inr []"
| "published_keys s (x # xs) =
     (case getitem (objs s x) ''published'' of Inl e \<Rightarrow> Inl e | Inr k \<Rightarrow>
     (case published_keys s xs of Inl e \<Rightarrow> Inl e | Inr ks \<Rightarrow> Inr (k # ks)))"

definition is_str :: "pyval \<Rightarrow> bool" where
  "is_str v = (case v of PStr x \<Rightarrow> True | _ \<Rightarrow> False)"

definition is_float :: "pyval \<Rightarrow> bool" where
  "is_float v = (case v of PFloat x \<Rightarrow> True | _ \<Rightarrow> False)"

definition published_str :: "store \<Rightarrow> ref \<Rightarrow> pystr" where
  "published_str s x = (case objs s x ''published'' of Some (PStr p) \<Rightarrow> p | _ \<Rightarrow> [])"

definition published_float :: "store \<Rightarrow> ref \<Rightarrow> real" where
  "published_float s x = (case objs s x ''published'' of Some (PFloat p) \<Rightarrow> p | _ \<Rightarrow> 0)"

definition sorted_reverse :: "('a \<Rightarrow> 'k::linorder) \<Rightarrow> 'a list \<Rightarrow> 'a list" where
  "sorted_reverse key xs = rev (sort_key key (rev xs))"

definition filter_and_sort_articles :: "store \<Rightarrow> ref list \<Rightarrow> error + (store \<times> ref list)" where
  "filter_and_sort_articles s articles =
     (case published_keys s articles of
        Inl e \<Rightarrow> Inl e
      | Inr keys \<Rightarrow>
          if length keys \<le> 1 then Inr (s, articles)
          else if list_all is_str keys then Inr (s, sorted_reverse (published_str s) articles)
          else if list_all is_float keys then Inr (s, sorted_reverse (published_float s) articles)
          else Inl TypeError)"

subsection \<open>\<open>analyze_sentiment\<close>\<close>

text \<open>
  The classifier \<open>self.sentiment_model\<close> is external: a function from the text it is
  given to the label and the score of its first result, \<open>None\<close> when the call raises.
  Each invocation is appended to \<open>calls\<close>. The loop writes into the dictionaries it
  is given and the function returns the list it was given.
\<close>

type_synonym classifier = "pyval \<Rightarrow> (pystr \<times> real) option"

fun analyze_loop :: "classifier \<Rightarrow> store \<Rightarrow> ref list \<Rightarrow> error + store" where
  "analyze_loop sentiment_model s [] = Inr s"
| "analyze_loop sentiment_model s (article # rest) =
     (case getitem (objs s article) ''title'' of Inl e \<Rightarrow> Inl e | Inr title \<Rightarrow>
     (case sentiment_model title of
        None \<Rightarrow> Inl ClassifierError
      | Some (label, score) \<Rightarrow>
          analyze_loop sentiment_model
            (setitem (setitem (s\<lparr>calls := calls s @ [title]\<rparr>)
               article ''sentiment'' (PStr label))
               article ''subjectivity'' (PFloat score))
            rest))"

definition analyze_sentiment :: "classifier \<Rightarrow> store \<Rightarrow> ref list \<Rightarrow> error + (store \<times> ref list)" where
  "analyze_sentiment sentiment_model s articles =
     (case analyze_loop sentiment_model s articles of
        Inl e \<Rightarrow> Inl e
      | Inr s' \<Rightarrow> Inr (s', articles))"

subsection \<open>\<open>adjust_subjectivity\<close>\<close>

definition NEUTRAL :: pystr where
  "NEUTRAL = [78, 69, 85, 84, 82, 65, 76]"

fun adjust_loop :: "store \<Rightarrow> ref list \<Rightarrow> error + store" where
  "adjust_loop s [] = Inr s"
| "adjust_loop s (article # rest) =
     (case getitem (objs s article) ''sentiment'' of Inl e \<Rightarrow> Inl e | Inr v \<Rightarrow>
      adjust_loop
        (if v = PStr NEUTRAL then setitem s article ''subjectivity'' (PFloat 0.1) else s)
        rest)"

definition adjust_subjectivity :: "store \<Rightarrow> ref list \<Rightarrow> error + (store \<times> ref list)" where
  "adjust_subjectivity s articles =
     (case adjust_loop s articles of
        Inl e \<Rightarrow> Inl e
      | Inr s' \<Rightarrow> Inr (s', articles))"

subsection \<open>\<open>filter_articles_by_keywords\<close>\<close>

text \<open>
  \<open>str.lower\<close> is a parameter \<open>lower\<close>; \<open>a in b\<close> on strings is \<open>sublist a b\<close>.
  \<open>any\<close> over the generator stops at the first keyword that matches, \<open>or\<close> evaluates
  its right operand only when the left one is false, and \<open>.lower()\<close> on a value that
  is not a string raises \<open>AttributeError\<close>.
\<close>

fun any_keyword :: "(pystr \<Rightarrow> pystr) \<Rightarrow> pyval \<Rightarrow> pyval \<Rightarrow> pystr list \<Rightarrow> error + bool" where
  "any_keyword lower title summary [] = Inr False"
| "any_keyword lower title summary (keyword # keywords) =
     (case title of
        PStr t \<Rightarrow>
          if sublist (lower keyword) (lower t) then Inr True
          else (case summary of
                  PStr d \<Rightarrow>
                    if sublist (lower keyword) (lower d) then Inr True
                    else any_keyword lower title summary keywords
                | _ \<Rightarrow> Inl AttributeError)
      | _ \<Rightarrow> Inl AttributeError)"

fun filter_loop ::
  "(pystr \<Rightarrow> pystr) \<Rightarrow> store \<Rightarrow> ref list \<Rightarrow> ref list \<Rightarrow> pystr list \<Rightarrow> error + ref list" where
  "filter_loop lower s filtered_articles [] keywords = Inr filtered_articles"
| "filter_loop lower s filtered_articles (article # rest) keywords =
     (let title = get_default (objs s article) ''title'' (PStr []);
          summary = get_default (objs s article) ''description'' (PStr [])
      in (case any_keyword lower title summary keywords of
            Inl e \<Rightarrow> Inl e
          | Inr b \<Rightarrow>
              filter_loop lower s
                (if b then filtered_articles @ [article] else filtered_articles) rest keywords))"

definition filter_articles_by_keywords ::
  "(pystr \<Rightarrow> pystr) \<Rightarrow> store \<Rightarrow> ref list \<Rightarrow> pystr list \<Rightarrow> error + (store \<times> ref list)" where
  "filter_articles_by_keywords lower s articles keywords =
     (case filter_loop lower s [] articles keywords of
        Inl e \<Rightarrow> Inl e
      | Inr filtered_articles \<Rightarrow> Inr (s, filtered_articles))"

subsection \<open>\<open>main\<close>\<close>

definition keywords_vish :: "pystr list" where
  "keywords_vish =
     [[1080, 1085, 1078, 1077, 1085, 1077, 1088, 1085, 1072, 1103, 32, 1096, 1082, 1086,
       1083, 1072],
      [1056, 1059, 1058, 32, 1052, 1048, 1048, 1058],
      [1042, 1048, 1064]]"

definition keywords_high_speed :: "pystr list" where
  "keywords_high_speed =
     [[1042, 1057, 1052],
      [1089, 1082, 1086, 1088, 1086, 1089, 1090, 1085, 1099, 1077, 32, 1084, 1072, 1075,
       1080, 1089, 1090, 1088, 1072, 1083, 1080],
      [1074, 1099, 1089, 1086, 1082, 1086, 1089, 1082, 1086, 1088, 1086, 1089, 1090, 1085,
       1086, 1081]]"

definition keywords_rzd :: "pystr list" where
  "keywords_rzd =
     [[1056, 1046, 1044],
      [1056, 1086, 1089, 1089, 1080, 1081, 1089, 1082, 1080, 1077, 32, 1078, 1077, 1083,
       1077, 1079, 1085, 1099, 1077, 32, 1076, 1086, 1088, 1086, 1075, 1080]]"

text \<open>
  The dictionary comprehension \<open>{entry['link']: entry for entry in all_articles}\<close>.
  A Python \<open>dict\<close> keeps its keys in the order of their first insertion, and storing
  under a key that is present replaces the value in place. \<open>deduplicate\<close> is the
  expression of \<open>main\<close> that builds \<open>unique_articles\<close>; \<open>main\<close> lists the
  values of this dictionary twice, for the sort and for the result, and gets the same list
  both times.
\<close>

fun dict_store :: "('k \<times> 'v) list \<Rightarrow> 'k \<Rightarrow> 'v \<Rightarrow> ('k \<times> 'v) list" where
  "dict_store [] k v = [(k, v)]"
| "dict_store ((k', v') # d) k v =
     (if k' = k then (k', v) # d else (k', v') # dict_store d k v)"

fun link_dict :: "store \<Rightarrow> (pyval \<times> ref) list \<Rightarrow> ref list \<Rightarrow> error + (pyval \<times> ref) list" where
  "link_dict s d [] = Inr d"
| "link_dict s d (entry # rest) =
     (case getitem (objs s entry) ''link'' of Inl e \<Rightarrow> Inl e | Inr k \<Rightarrow>
      link_dict s (dict_store d k entry) rest)"

definition dict_values :: "('k \<times> 'v) list \<Rightarrow> 'v list" where
  "dict_values d = map snd d"

definition deduplicate :: "store \<Rightarrow> ref list \<Rightarrow> error + ref list" where
  "deduplicate s all_articles =
     (case link_dict s [] all_articles of
        Inl e \<Rightarrow> Inl e
      | Inr d \<Rightarrow> Inr (dict_values d))"

text \<open>
  \<open>main\<close> up to the dictionary \<open>result\<close>, which is what \<open>save_to_json\<close> writes;
  \<open>final_articles\<close> is also what \<open>create_dashboard\<close> renders. The lists of the
  result hold references: what is exported is the content of the final store.
\<close>

definition main ::
  "classifier \<Rightarrow> (pystr \<Rightarrow> pystr) \<Rightarrow> (pystr \<Rightarrow> http_outcome) \<Rightarrow> store \<Rightarrow>
     error + (store \<times> (string \<times> ref list) list)" where
  "main sentiment_model lower session_get s0 =
     (case fetch_vish_news session_get s0 of Inl e \<Rightarrow> Inl e | Inr (s1, vish_news) \<Rightarrow>
     (case fetch_high_speed_railways session_get s1 of Inl e \<Rightarrow> Inl e | Inr (s2, high_speed_news) \<Rightarrow>
     (case fetch_russian_railways session_get s2 of Inl e \<Rightarrow> Inl e | Inr (s3, russian_railways_news) \<Rightarrow>
     (let all_articles = vish_news @ high_speed_news @ russian_railways_news in
     (case deduplicate s3 all_articles of Inl e \<Rightarrow> Inl e | Inr unique_articles \<Rightarrow>
     (case filter_and_sort_articles s3 unique_articles of Inl e \<Rightarrow> Inl e | Inr (s4, sorted_articles) \<Rightarrow>
     (case analyze_sentiment sentiment_model s4 sorted_articles of Inl e \<Rightarrow> Inl e | Inr (s5, analyzed_articles) \<Rightarrow>
     (case adjust_subjectivity s5 analyzed_articles of Inl e \<Rightarrow> Inl e | Inr (s6, adjusted_articles) \<Rightarrow>
     (case filter_articles_by_keywords lower s6 adjusted_articles keywords_vish of Inl e \<Rightarrow> Inl e | Inr (s7, filtered_vish) \<Rightarrow>
     (case filter_articles_by_keywords lower s7 adjusted_articles keywords_high_speed of Inl e \<Rightarrow> Inl e | Inr (s8, filtered_high_speed) \<Rightarrow>
     (case filter_articles_by_keywords lower s8 adjusted_articles keywords_rzd of Inl e \<Rightarrow> Inl e | Inr (s9, filtered_rzd) \<Rightarrow>
     (let final_articles = filtered_vish @ filtered_high_speed @ filtered_rzd in
      Inr (s9,
        [(''unique_articles'', unique_articles),
         (''analyzed_articles'', analyzed_articles),
         (''filtered_vish'', filtered_vish),
         (''filtered_high_speed'', filtered_high_speed),
         (''filtered_rzd'', filtered_rzd),
         (''final_articles'', final_articles)])))))))))))))"

section \<open>Notions used to state the properties\<close>

text \<open>
  A list of articles is in published order when the \<open>published\<close> strings do not
  increase along it.
\<close>

definition in_published_order :: "store \<Rightarrow> ref list \<Rightarrow> bool" where
  "in_published_order s xs = sorted_wrt (\<lambda>a b. published_str s b \<le> published_str s a) xs"

text \<open>
  The dictionary an article denotes once \<open>adjust_subjectivity\<close> has run over the
  list \<open>xs\<close>.
\<close>

definition adjusted :: "store \<Rightarrow> ref list \<Rightarrow> ref \<Rightarrow> pydict" where
  "adjusted s xs x =
     (if x \<in> set xs \<and> objs s x ''sentiment'' = Some (PStr NEUTRAL)
      then (objs s x)(''subjectivity'' \<mapsto> PFloat 0.1) else objs s x)"

text \<open>
  The keyword filter as the specification words it: a field that is absent counts as the
  empty string, and a keyword matches an article when, both lower-cased, it occurs as a
  substring of the title or of the description.
\<close>

definition text_field :: "pydict \<Rightarrow> string \<Rightarrow> pystr" where
  "text_field d k = (case d k of Some (PStr t) \<Rightarrow> t | _ \<Rightarrow> [])"

definition str_or_absent :: "pydict \<Rightarrow> string \<Rightarrow> bool" where
  "str_or_absent d k = (case d k of None \<Rightarrow> True | Some v \<Rightarrow> is_str v)"

definition occurs_in :: "(pystr \<Rightarrow> pystr) \<Rightarrow> pystr \<Rightarrow> pystr \<Rightarrow> bool" where
  "occurs_in lower keyword text = sublist (lower keyword) (lower text)"

definition keyword_match :: "(pystr \<Rightarrow> pystr) \<Rightarrow> pystr list \<Rightarrow> pydict \<Rightarrow> bool" where
  "keyword_match lower keywords d =
     list_ex (\<lambda>keyword. occurs_in lower keyword (text_field d ''title'') \<or>
                         occurs_in lower keyword (text_field d ''description'')) keywords"

text \<open>
  What the three fetches leave in the store: every article of \<open>rs\<close> is an allocated
  dictionary with exactly the keys \<open>title\<close>, \<open>link\<close> and \<open>published\<close>.
\<close>

definition fetched :: "store \<Rightarrow> ref list \<Rightarrow> bool" where
  "fetched s rs =
     (\<forall>r\<in>set rs. r < nxt s \<and> dom (objs s r) = {''title'', ''link'', ''published''})"

text \<open>The keyword filter restricted to the title.\<close>

definition title_match :: "(pystr \<Rightarrow> pystr) \<Rightarrow> pystr list \<Rightarrow> pydict \<Rightarrow> bool" where
  "title_match lower keywords d =
     list_ex (\<lambda>keyword. occurs_in lower keyword (text_field d ''title'')) keywords"

section \<open>A concrete run\<close>

text \<open>
  Three fetched articles, the first and the last with the same link; a lower-casing of the
  Latin and Cyrillic capitals; a classifier; and two articles after scoring.
\<close>

definition example_lower :: "pystr \<Rightarrow> pystr" where
  "example_lower = map (\<lambda>c. if (65 \<le> c \<and> c \<le> 90) \<or> (1040 \<le> c \<and> c \<le> 1071) then c + 32 else c)"

definition example_tender :: pystr where
  "example_tender = [1056, 1046, 1044, 32, 1086, 1073, 1098, 1103, 1074, 1080, 1083, 1072, 32,
     1090, 1077, 1085, 1076, 1077, 1088]"

definition example_store :: store where
  "example_store =
     \<lparr>objs = (\<lambda>r. Map.empty)
        (0 := [''title'' \<mapsto> PStr example_tender, ''link'' \<mapsto> PStr [97],
               ''published'' \<mapsto> PStr [50, 48, 50, 52]],
         1 := [''title'' \<mapsto> PStr [1055, 1086, 1075, 1086, 1076, 1072], ''link'' \<mapsto> PStr [98],
               ''published'' \<mapsto> PStr [50, 48, 50, 53]],
         2 := [''title'' \<mapsto> PStr [1042, 1057, 1052], ''link'' \<mapsto> PStr [97],
               ''published'' \<mapsto> PStr [50, 48, 50, 51]]),
      nxt = 3, calls = []\<rparr>"

definition example_model :: classifier where
  "example_model t =
     (case t of
        PStr x \<Rightarrow> if x = example_tender then Some (NEUTRAL, 0.9) else Some ([80, 79, 83], 0.8)
      | _ \<Rightarrow> None)"

definition example_scored :: store where
  "example_scored =
     \<lparr>objs = (\<lambda>r. Map.empty)
        (0 := [''title'' \<mapsto> PStr example_tender, ''published'' \<mapsto> PStr [50, 48, 50, 52],
               ''sentiment'' \<mapsto> PStr NEUTRAL, ''subjectivity'' \<mapsto> PFloat 0.9],
         1 := [''title'' \<mapsto> PStr [1055, 1086, 1075, 1086, 1076, 1072],
               ''published'' \<mapsto> PStr [50, 48, 50, 53],
               ''sentiment'' \<mapsto> PStr [80, 79, 83], ''subjectivity'' \<mapsto> PFloat 0.8]),
      nxt = 2, calls = []\<rparr>"

text \<open>
  A run of \<open>main\<close>: the first query returns two articles, the second is answered with
  status 429, the third returns three articles, one of them under the link of the first
  article of the first query. One raw article carries a description that names a keyword.
\<close>

definition example_empty :: store where
  "example_empty = \<lparr>objs = (\<lambda>r. Map.empty), nxt = 0, calls = []\<rparr>"

definition example_get :: "pystr \<Rightarrow> http_outcome" where
  "example_get q =
     (if q = query_vish then
        GetReturns \<lparr>status_code = 200, json = Some (Some
          [[''title'' \<mapsto> PStr [1056, 1046, 1044], ''url'' \<mapsto> PStr [97],
            ''publishedAt'' \<mapsto> PStr [50, 48, 50, 52]],
           [''title'' \<mapsto> PStr [1055, 1086, 1075, 1086, 1076, 1072], ''url'' \<mapsto> PStr [98],
            ''publishedAt'' \<mapsto> PStr [50, 48, 50, 53],
            ''description'' \<mapsto> PStr [1056, 1046, 1044]]])\<rparr>
      else if q = query_high_speed then
        GetReturns \<lparr>status_code = 429, json = None\<rparr>
      else
        GetReturns \<lparr>status_code = 200, json = Some (Some
          [[''title'' \<mapsto> PStr [1042, 1057, 1052, 32, 1056, 1046, 1044], ''url'' \<mapsto> PStr [99],
            ''publishedAt'' \<mapsto> PStr [50, 48, 50, 51]],
           [''title'' \<mapsto> PStr example_tender, ''url'' \<mapsto> PStr [97],
            ''publishedAt'' \<mapsto> PStr [50, 48, 50, 49]],
           [''title'' \<mapsto> PStr [1042, 1048, 1064], ''url'' \<mapsto> PStr [100],
            ''publishedAt'' \<mapsto> PStr [50, 48, 50, 50], ''description'' \<mapsto> PNone]])\<rparr>)"

definition example_result :: "(string \<times> ref list) list" where
  "example_result =
     [(''unique_articles'', [3, 1, 2, 4]),
      (''analyzed_articles'', [1, 2, 4, 3]),
      (''filtered_vish'', [4]),
      (''filtered_high_speed'', [2]),
      (''filtered_rzd'', [2, 3]),
      (''final_articles'', [4, 2, 2, 3])]"

section \<open>Properties of \<open>fetch_news\<close>\<close>

lemma fetch_news_returns:
  "fetch_news (\<lambda>q. GetReturns r) s query =
     (if raise_for_status r then Inr (s, [])
      else (case json r of
              None \<Rightarrow> Inl JSONDecodeError
            | Some body \<Rightarrow>
                fetched_articles s (case body of None \<Rightarrow> [] | Some articles \<Rightarrow> articles)))"
  by (simp add: fetch_news_def)

text \<open>
  C1. The claim is that \<open>fetch_news\<close> returns the empty list on every request
  exception, also on one raised before a response exists. When \<open>session.get\<close>
  itself raises, whatever the exception and the query, the handler reads the unbound
  local \<open>response\<close> and \<open>fetch_news\<close> raises \<open>UnboundLocalError\<close> instead of
  returning; only the \<open>HTTPError\<close> of \<open>raise_for_status\<close> is turned into the
  empty list (\<open>fetch_news_returns\<close>).
\<close>

theorem fetch_news_raises_when_get_raises:
  "fetch_news (\<lambda>q. GetRaises e) s query = Inl UnboundLocalError"
  by (simp add: fetch_news_def)

section \<open>Properties of the deduplication\<close>

lemma map_of_dict_store: "map_of (dict_store d k v) = (map_of d)(k \<mapsto> v)"
  by (induction d k v rule: dict_store.induct) (auto simp: fun_eq_iff)

lemma keys_dict_store:
  "map fst (dict_store d k v) = (if k \<in> fst ` set d then map fst d else map fst d @ [k])"
  by (induction d k v rule: dict_store.induct) auto

lemma dom_dict_store: "fst ` set (dict_store d k v) = insert k (fst ` set d)"
  by (induction d k v rule: dict_store.induct) auto

lemma distinct_dict_store: "distinct (map fst d) \<Longrightarrow> distinct (map fst (dict_store d k v))"
  by (simp add: keys_dict_store)

lemma link_dict_total:
  "\<forall>x\<in>set xs. objs s x ''link'' \<noteq> None \<Longrightarrow> \<exists>d'. link_dict s d xs = Inr d'"
  by (induction xs arbitrary: d) (auto simp: getitem_def split: option.splits)

lemma link_dict_distinct:
  "link_dict s d xs = Inr d' \<Longrightarrow> distinct (map fst d) \<Longrightarrow> distinct (map fst d')"
  by (induction xs arbitrary: d)
     (auto simp: getitem_def distinct_dict_store split: option.splits sum.splits)

lemma link_dict_map_of:
  "link_dict s d xs = Inr d' \<Longrightarrow>
   map_of d' k =
     (if \<exists>x\<in>set xs. objs s x ''link'' = Some k
      then Some (last (filter (\<lambda>x. objs s x ''link'' = Some k) xs))
      else map_of d k)"
proof (induction xs arbitrary: d)
  case Nil
  then show ?case by simp
next
  case (Cons x xs)
  then obtain kx where kx: "objs s x ''link'' = Some kx"
    and rest: "link_dict s (dict_store d kx x) xs = Inr d'"
    by (auto simp: getitem_def split: option.splits)
  show ?case
    using Cons.IH [OF rest] kx
    by (auto simp: map_of_dict_store filter_empty_conv)
qed

lemma link_dict_keys:
  "link_dict s d xs = Inr d' \<Longrightarrow>
   fst ` set d' = fst ` set d \<union> {k. \<exists>x\<in>set xs. objs s x ''link'' = Some k}"
proof (induction xs arbitrary: d)
  case Nil
  then show ?case by simp
next
  case (Cons x xs)
  then obtain kx where kx: "objs s x ''link'' = Some kx"
    and rest: "link_dict s (dict_store d kx x) xs = Inr d'"
    by (auto simp: getitem_def split: option.splits)
  show ?case
    using Cons.IH [OF rest] kx by (auto simp: dom_dict_store)
qed

text \<open>Every entry of the dictionary is the last article of the input with that link.\<close>

lemma link_dict_entry:
  assumes d: "link_dict s [] all_articles = Inr d" and m: "(k, u) \<in> set d"
  shows "objs s u ''link'' = Some k \<and> u \<in> set all_articles \<and>
      u = last (filter (\<lambda>x. objs s x ''link'' = Some k) all_articles)"
proof -
  have dist: "distinct (map fst d)"
    using link_dict_distinct [OF d] by simp
  have look: "map_of d k =
     (if \<exists>x\<in>set all_articles. objs s x ''link'' = Some k
      then Some (last (filter (\<lambda>x. objs s x ''link'' = Some k) all_articles))
      else None)"
    using link_dict_map_of [OF d, of k] by simp
  have mk: "map_of d k = Some u"
    using dist m by simp
  then have ex: "\<exists>x\<in>set all_articles. objs s x ''link'' = Some k"
    using look by (auto split: if_splits)
  then have ne: "filter (\<lambda>x. objs s x ''link'' = Some k) all_articles \<noteq> []"
    by (auto simp: filter_empty_conv)
  have u: "u = last (filter (\<lambda>x. objs s x ''link'' = Some k) all_articles)"
    using mk look ex by simp
  then have "u \<in> set (filter (\<lambda>x. objs s x ''link'' = Some k) all_articles)"
    using last_in_set [OF ne] by simp
  then show ?thesis using u by simp
qed

lemma link_dict_links:
  assumes d: "link_dict s [] all_articles = Inr d"
  shows "map (\<lambda>x. objs s x ''link'') (map snd d) = map (\<lambda>p. Some (fst p)) d"
  using link_dict_entry [OF d] by auto

lemma deduplicate_Inr:
  "deduplicate s all_articles = Inr unique_articles \<Longrightarrow>
   \<exists>d. link_dict s [] all_articles = Inr d \<and> unique_articles = map snd d"
  by (auto simp: deduplicate_def dict_values_def split: sum.splits)

lemma deduplicate_distinct_links:
  assumes "deduplicate s all_articles = Inr unique_articles"
  shows "distinct (map (\<lambda>x. objs s x ''link'') unique_articles)"
proof -
  obtain d where d: "link_dict s [] all_articles = Inr d" and u: "unique_articles = map snd d"
    using deduplicate_Inr [OF assms] by blast
  have "distinct (map fst d)"
    using link_dict_distinct [OF d] by simp
  then have "distinct (map (\<lambda>p. Some (fst p)) d)"
    by (simp add: distinct_map inj_on_def)
  then show ?thesis
    unfolding u link_dict_links [OF d] .
qed

lemma deduplicate_subset:
  assumes "deduplicate s all_articles = Inr unique_articles"
  shows "set unique_articles \<subseteq> set all_articles"
proof -
  obtain d where d: "link_dict s [] all_articles = Inr d" and u: "unique_articles = map snd d"
    using deduplicate_Inr [OF assms] by blast
  show ?thesis
    unfolding u using link_dict_entry [OF d] by auto
qed

text \<open>
  C2. For every sequence of articles that all have a \<open>link\<close>, the deduplication of
  \<open>main\<close> returns a collection in which every link of the input occurs exactly once
  (the links of the result are distinct and are those of the input), and the article kept
  for a link is the last one of the input with that link; the empty input gives the empty
  result.
\<close>

theorem deduplicate_last_wins:
  assumes "\<forall>x\<in>set all_articles. objs s x ''link'' \<noteq> None"
  shows "deduplicate s [] = Inr [] \<and>
    (\<exists>unique_articles.
       deduplicate s all_articles = Inr unique_articles \<and>
       distinct (map (\<lambda>x. objs s x ''link'') unique_articles) \<and>
       (\<lambda>x. objs s x ''link'') ` set unique_articles = (\<lambda>x. objs s x ''link'') ` set all_articles \<and>
       (\<forall>u\<in>set unique_articles.
          u = last (filter (\<lambda>x. objs s x ''link'' = objs s u ''link'') all_articles)))"
proof -
  obtain d where d: "link_dict s [] all_articles = Inr d"
    using link_dict_total [OF assms] by blast
  have dd: "deduplicate s all_articles = Inr (map snd d)"
    using d by (simp add: deduplicate_def dict_values_def)
  note entry = link_dict_entry [OF d]
  note links = link_dict_links [OF d]
  have 1: "distinct (map (\<lambda>x. objs s x ''link'') (map snd d))"
    by (rule deduplicate_distinct_links [OF dd])
  have keys: "fst ` set d = {k. \<exists>x\<in>set all_articles. objs s x ''link'' = Some k}"
    using link_dict_keys [OF d] by simp
  have 2: "(\<lambda>x. objs s x ''link'') ` set (map snd d) = (\<lambda>x. objs s x ''link'') ` set all_articles"
  proof -
    have "set (map (\<lambda>x. objs s x ''link'') (map snd d)) = set (map (\<lambda>p. Some (fst p)) d)"
      using links by simp
    then have "(\<lambda>x. objs s x ''link'') ` set (map snd d) = Some ` fst ` set d"
      by (simp add: image_image)
    also have "\<dots> = (\<lambda>x. objs s x ''link'') ` set all_articles"
      unfolding keys using assms by force
    finally show ?thesis .
  qed
  have 3: "\<forall>u\<in>set (map snd d). u = last (filter (\<lambda>x. objs s x ''link'' = objs s u ''link'') all_articles)"
    using entry by force
  show ?thesis
    using dd 1 2 3 by (simp add: deduplicate_def dict_values_def)
qed

theorem deduplicate_last_wins_witness:
  "deduplicate example_store [0, 1, 2] = Inr [2, 1] \<and>
   (\<exists>unique_articles.
       deduplicate example_store [0, 1, 2] = Inr unique_articles \<and>
       distinct (map (\<lambda>x. objs example_store x ''link'') unique_articles) \<and>
       (\<lambda>x. objs example_store x ''link'') ` set unique_articles =
         (\<lambda>x. objs example_store x ''link'') ` set [0, 1, 2] \<and>
       (\<forall>u\<in>set unique_articles.
          u = last (filter (\<lambda>x. objs example_store x ''link'' = objs example_store u ''link'') [0, 1, 2])))"
proof -
  have h: "\<forall>x\<in>set [0, 1, 2]. objs example_store x ''link'' \<noteq> None"
    by (simp add: example_store_def)
  have e: "deduplicate example_store [0, 1, 2] = Inr [2, 1]"
    by (simp add: deduplicate_def dict_values_def getitem_def example_store_def)
  show ?thesis
    using deduplicate_last_wins [OF h] e by blast
qed

section \<open>Properties of \<open>filter_and_sort_articles\<close>\<close>

lemma published_keys_str:
  "\<forall>x\<in>set xs. \<exists>p. objs s x ''published'' = Some (PStr p) \<Longrightarrow>
   published_keys s xs = Inr (map (\<lambda>x. PStr (published_str s x)) xs)"
  by (induction xs) (auto simp: getitem_def published_str_def)

lemma sorted_reverse_mset: "mset (sorted_reverse key xs) = mset xs"
  by (simp add: sorted_reverse_def)

lemma sorted_reverse_sorted: "sorted (rev (map key (sorted_reverse key xs)))"
  by (simp add: sorted_reverse_def rev_map)

lemma sorted_reverse_stable:
  "filter (\<lambda>x. key x = k) (sorted_reverse key xs) = filter (\<lambda>x. key x = k) xs"
  by (simp add: sorted_reverse_def rev_filter [symmetric] sort_key_stable)

lemma sorted_rev_map_iff:
  "sorted (rev (map key xs)) = sorted_wrt (\<lambda>a b. key b \<le> key a) xs"
  by (simp add: sorted_wrt_rev sorted_wrt_map)

lemma filter_and_sort_articles_str:
  assumes "\<forall>x\<in>set articles. \<exists>p. objs s x ''published'' = Some (PStr p)"
  shows "filter_and_sort_articles s articles =
           Inr (s, if length articles \<le> 1 then articles
                   else sorted_reverse (published_str s) articles)"
  using published_keys_str [OF assms]
  by (simp add: filter_and_sort_articles_def list_all_iff is_str_def)

text \<open>
  C3. For every list of articles whose \<open>published\<close> values are strings,
  \<open>filter_and_sort_articles\<close> returns a rearrangement of its input in which every
  element's \<open>published\<close> string is at least the next one's, articles with equal
  \<open>published\<close> keep their input order, and the store it was given is returned as it
  was.
\<close>

theorem filter_and_sort_articles_descending_stable:
  assumes "\<forall>x\<in>set articles. \<exists>p. objs s x ''published'' = Some (PStr p)"
  shows "\<exists>sorted_articles.
     filter_and_sort_articles s articles = Inr (s, sorted_articles) \<and>
     mset sorted_articles = mset articles \<and>
     (\<forall>i. Suc i < length sorted_articles \<longrightarrow>
        published_str s (sorted_articles ! Suc i) \<le> published_str s (sorted_articles ! i)) \<and>
     in_published_order s sorted_articles \<and>
     (\<forall>k. filter (\<lambda>x. published_str s x = k) sorted_articles =
          filter (\<lambda>x. published_str s x = k) articles)"
proof (cases "length articles \<le> 1")
  case True
  then have "sorted_wrt (\<lambda>a b. published_str s b \<le> published_str s a) articles"
    by (rule sorted_wrt01)
  moreover have "\<forall>i. \<not> Suc i < length articles"
    using True by simp
  ultimately show ?thesis
    using filter_and_sort_articles_str [OF assms] True
    by (simp add: in_published_order_def)
next
  case False
  let ?out = "sorted_reverse (published_str s) articles"
  have s: "sorted (rev (map (published_str s) ?out))"
    by (rule sorted_reverse_sorted)
  then have "\<forall>i. Suc i < length ?out \<longrightarrow>
      published_str s (?out ! Suc i) \<le> published_str s (?out ! i)"
    by (simp add: sorted_rev_iff_nth_Suc)
  moreover have "in_published_order s ?out"
    using s by (simp add: in_published_order_def sorted_rev_map_iff)
  ultimately show ?thesis
    using filter_and_sort_articles_str [OF assms] False
    by (simp add: sorted_reverse_mset sorted_reverse_stable)
qed

theorem filter_and_sort_articles_descending_stable_witness:
  "filter_and_sort_articles example_store [0, 1, 2] = Inr (example_store, [1, 0, 2]) \<and>
   (\<exists>sorted_articles.
     filter_and_sort_articles example_store [0, 1, 2] = Inr (example_store, sorted_articles) \<and>
     mset sorted_articles = mset [0, 1, 2] \<and> in_published_order example_store sorted_articles)"
proof -
  have h: "\<forall>x\<in>set [0, 1, 2]. \<exists>p. objs example_store x ''published'' = Some (PStr p)"
    by (simp add: example_store_def)
  have e: "filter_and_sort_articles example_store [0, 1, 2] = Inr (example_store, [1, 0, 2])"
    by (simp add: filter_and_sort_articles_def getitem_def is_str_def sorted_reverse_def
          published_str_def example_store_def)
  show ?thesis
    using filter_and_sort_articles_descending_stable [OF h] e by blast
qed

section \<open>Properties of \<open>analyze_sentiment\<close>\<close>

lemma objs_setitem:
  "objs (setitem s r k v) = (objs s)(r := (objs s r)(k \<mapsto> v))"
  by (simp add: setitem_def)

lemma nxt_setitem: "nxt (setitem s r k v) = nxt s"
  by (simp add: setitem_def)

lemma calls_setitem: "calls (setitem s r k v) = calls s"
  by (simp add: setitem_def)

text \<open>The loop of \<open>analyze_sentiment\<close> writes two keys of the articles it is given.\<close>

lemma analyze_loop_frame:
  "analyze_loop clf s xs = Inr s' \<Longrightarrow>
   nxt s' = nxt s \<and>
   (\<forall>x. x \<notin> set xs \<longrightarrow> objs s' x = objs s x) \<and>
   (\<forall>x k. k \<noteq> ''sentiment'' \<longrightarrow> k \<noteq> ''subjectivity'' \<longrightarrow> objs s' x k = objs s x k)"
proof (induction xs arbitrary: s)
  case Nil
  then show ?case by simp
next
  case (Cons a xs)
  from Cons.prems obtain t l c where t: "objs s a ''title'' = Some t" and c: "clf t = Some (l, c)"
    and rest: "analyze_loop clf
        (setitem (setitem (s\<lparr>calls := calls s @ [t]\<rparr>) a ''sentiment'' (PStr l))
           a ''subjectivity'' (PFloat c)) xs = Inr s'"
    by (auto simp: getitem_def split: option.splits)
  show ?case
    using Cons.IH [OF rest]
    by (auto simp: objs_setitem nxt_setitem)
qed

lemma analyze_loop_written:
  "analyze_loop clf s xs = Inr s' \<Longrightarrow>
   map Some (calls s') = map Some (calls s) @ map (\<lambda>x. objs s x ''title'') xs \<and>
   (\<forall>x\<in>set xs. \<exists>t l c. objs s x ''title'' = Some t \<and> clf t = Some (l, c) \<and>
      objs s' x ''sentiment'' = Some (PStr l) \<and> objs s' x ''subjectivity'' = Some (PFloat c))"
proof (induction xs arbitrary: s)
  case Nil
  then show ?case by simp
next
  case (Cons a xs)
  from Cons.prems obtain t l c where t: "objs s a ''title'' = Some t" and c: "clf t = Some (l, c)"
    and rest: "analyze_loop clf
        (setitem (setitem (s\<lparr>calls := calls s @ [t]\<rparr>) a ''sentiment'' (PStr l))
           a ''subjectivity'' (PFloat c)) xs = Inr s'"
    by (auto simp: getitem_def split: option.splits)
  let ?s1 = "setitem (setitem (s\<lparr>calls := calls s @ [t]\<rparr>) a ''sentiment'' (PStr l))
           a ''subjectivity'' (PFloat c)"
  have title1: "objs ?s1 x ''title'' = objs s x ''title''" for x
    by (simp add: objs_setitem)
  have calls1: "calls ?s1 = calls s @ [t]"
    by (simp add: calls_setitem)
  note ih = Cons.IH [OF rest]
  note fr = analyze_loop_frame [OF rest]
  have a: "objs s' a ''sentiment'' = Some (PStr l) \<and> objs s' a ''subjectivity'' = Some (PFloat c)"
  proof (cases "a \<in> set xs")
    case True
    then show ?thesis
      using ih t c title1 by fastforce
  next
    case False
    then have "objs s' a = objs ?s1 a"
      using fr by simp
    then show ?thesis
      by (simp add: objs_setitem)
  qed
  show ?case
    using ih a t c by (simp add: title1 calls1)
qed

lemma analyze_loop_total:
  "\<forall>x\<in>set xs. \<exists>t l c. objs s x ''title'' = Some t \<and> clf t = Some (l, c) \<Longrightarrow>
   \<exists>s'. analyze_loop clf s xs = Inr s'"
proof (induction xs arbitrary: s)
  case Nil
  then show ?case by simp
next
  case (Cons a xs)
  then obtain t l c where t: "objs s a ''title'' = Some t" and c: "clf t = Some (l, c)"
    by auto
  let ?s1 = "setitem (setitem (s\<lparr>calls := calls s @ [t]\<rparr>) a ''sentiment'' (PStr l))
           a ''subjectivity'' (PFloat c)"
  have "\<forall>x\<in>set xs. \<exists>t l c. objs ?s1 x ''title'' = Some t \<and> clf t = Some (l, c)"
    using Cons.prems by (simp add: objs_setitem)
  from Cons.IH [OF this] show ?case
    using t c by (simp add: getitem_def)
qed

text \<open>
  C4. For every list of articles that have a title the classifier accepts,
  \<open>analyze_sentiment\<close> returns the list it was given, has invoked the classifier once
  per article, in order, on that article's \<open>title\<close> and nothing else, and every article
  of the list then has \<open>sentiment\<close> equal to the label and \<open>subjectivity\<close> equal to
  the score the classifier gives for its title.
\<close>

theorem analyze_sentiment_scores_titles:
  assumes "\<forall>x\<in>set articles. \<exists>t l c. objs s x ''title'' = Some t \<and> sentiment_model t = Some (l, c)"
  shows "\<exists>s'. analyze_sentiment sentiment_model s articles = Inr (s', articles) \<and>
     map Some (calls s') = map Some (calls s) @ map (\<lambda>x. objs s x ''title'') articles \<and>
     (\<forall>x\<in>set articles. \<exists>t l c.
        objs s x ''title'' = Some t \<and> sentiment_model t = Some (l, c) \<and>
        objs s' x ''sentiment'' = Some (PStr l) \<and>
        objs s' x ''subjectivity'' = Some (PFloat c))"
proof -
  obtain s' where s': "analyze_loop sentiment_model s articles = Inr s'"
    using analyze_loop_total [OF assms] by blast
  show ?thesis
    using analyze_loop_written [OF s'] s' by (simp add: analyze_sentiment_def)
qed

theorem analyze_sentiment_scores_titles_witness:
  "\<exists>s'. analyze_sentiment example_model example_store [1, 0, 2] = Inr (s', [1, 0, 2]) \<and>
     calls s' = [PStr [1055, 1086, 1075, 1086, 1076, 1072], PStr example_tender, PStr [1042, 1057, 1052]] \<and>
     objs s' 0 ''sentiment'' = Some (PStr NEUTRAL) \<and>
     objs s' 0 ''subjectivity'' = Some (PFloat 0.9)"
proof -
  have h: "\<forall>x\<in>set [1, 0, 2]. \<exists>t l c.
      objs example_store x ''title'' = Some t \<and> example_model t = Some (l, c)"
    by (simp add: example_store_def example_model_def example_tender_def
          del: divide_eq_eq_numeral1 eq_divide_eq_numeral1)
  from analyze_sentiment_scores_titles [OF h]
  obtain s' where "analyze_sentiment example_model example_store [1, 0, 2] = Inr (s', [1, 0, 2])"
    and "map Some (calls s') = map Some (calls example_store) @ map (\<lambda>x. objs example_store x ''title'') [1, 0, 2]"
    and "\<forall>x\<in>set [1, 0, 2]. \<exists>t l c.
        objs example_store x ''title'' = Some t \<and> example_model t = Some (l, c) \<and>
        objs s' x ''sentiment'' = Some (PStr l) \<and>
        objs s' x ''subjectivity'' = Some (PFloat c)"
    by blast
  then show ?thesis
    by (intro exI [of _ s']) (auto simp: example_store_def example_model_def map_eq_Cons_conv)
qed

section \<open>Properties of \<open>adjust_subjectivity\<close>\<close>

lemma adjust_loop_result:
  "\<forall>x\<in>set xs. objs s x ''sentiment'' \<noteq> None \<Longrightarrow>
   adjust_loop s xs = Inr (s\<lparr>objs := adjusted s xs\<rparr>)"
proof (induction xs arbitrary: s)
  case Nil
  then show ?case by (simp add: adjusted_def)
next
  case (Cons a xs)
  then obtain v where v: "objs s a ''sentiment'' = Some v"
    by auto
  let ?s1 = "if v = PStr NEUTRAL then setitem s a ''subjectivity'' (PFloat 0.1) else s"
  have sent1: "objs ?s1 x ''sentiment'' = objs s x ''sentiment''" for x
    by (simp add: objs_setitem)
  have "\<forall>x\<in>set xs. objs ?s1 x ''sentiment'' \<noteq> None"
    using Cons.prems by (simp only: sent1) simp
  from Cons.IH [OF this]
  have step: "adjust_loop s (a # xs) = Inr (?s1\<lparr>objs := adjusted ?s1 xs\<rparr>)"
    using v by (simp add: getitem_def)
  have "adjusted ?s1 xs = adjusted s (a # xs)"
    using v by (auto simp: adjusted_def objs_setitem fun_eq_iff)
  moreover have "?s1\<lparr>objs := f\<rparr> = s\<lparr>objs := f\<rparr>" for f
    by (simp add: setitem_def)
  ultimately show ?case
    using step by simp
qed

lemma adjust_loop_error:
  "adjust_loop s xs = Inr s' \<Longrightarrow> \<forall>x\<in>set xs. objs s x ''sentiment'' \<noteq> None"
proof (induction xs arbitrary: s)
  case Nil
  then show ?case by simp
next
  case (Cons a xs)
  then obtain v where v: "objs s a ''sentiment'' = Some v"
    and rest: "adjust_loop (if v = PStr NEUTRAL then setitem s a ''subjectivity'' (PFloat 0.1) else s) xs = Inr s'"
    by (auto simp: getitem_def split: option.splits)
  have "\<forall>x\<in>set xs. objs s x ''sentiment'' \<noteq> None"
    using Cons.IH [OF rest] by (auto simp: objs_setitem split: if_splits)
  then show ?case using v by simp
qed

text \<open>
  C5. For every list of articles that have a \<open>sentiment\<close>, after
  \<open>adjust_subjectivity\<close> every article of the list whose \<open>sentiment\<close> is
  \<open>NEUTRAL\<close> is what it was with \<open>subjectivity\<close> set to 0.1, whatever it held
  before, and every other article of the list is unchanged in all fields.
\<close>

theorem adjust_subjectivity_neutral:
  assumes "\<forall>x\<in>set articles. objs s x ''sentiment'' \<noteq> None"
  shows "\<exists>s'. adjust_subjectivity s articles = Inr (s', articles) \<and>
     (\<forall>x\<in>set articles.
        if objs s x ''sentiment'' = Some (PStr NEUTRAL)
        then objs s' x = (objs s x)(''subjectivity'' \<mapsto> PFloat 0.1)
        else objs s' x = objs s x)"
  using adjust_loop_result [OF assms]
  by (simp add: adjust_subjectivity_def adjusted_def)

theorem adjust_subjectivity_neutral_witness:
  "\<exists>s'. adjust_subjectivity example_scored [1, 0] = Inr (s', [1, 0]) \<and>
     objs s' 0 ''subjectivity'' = Some (PFloat 0.1) \<and>
     objs s' 1 = objs example_scored 1"
proof -
  have h: "\<forall>x\<in>set [1, 0]. objs example_scored x ''sentiment'' \<noteq> None"
    by (simp add: example_scored_def)
  from adjust_subjectivity_neutral [OF h]
  obtain s' where "adjust_subjectivity example_scored [1, 0] = Inr (s', [1, 0])"
    and "\<forall>x\<in>set [1, 0].
        if objs example_scored x ''sentiment'' = Some (PStr NEUTRAL)
        then objs s' x = (objs example_scored x)(''subjectivity'' \<mapsto> PFloat 0.1)
        else objs s' x = objs example_scored x"
    by blast
  then show ?thesis
    by (intro exI [of _ s']) (simp add: example_scored_def NEUTRAL_def)
qed

text \<open>
  C9. \<open>adjust_subjectivity\<close> is idempotent: on every list of articles that have a
  \<open>sentiment\<close> it returns, and applying it again to what it returned returns the same
  store and the same list.
\<close>

theorem adjust_subjectivity_idempotent:
  assumes "\<forall>x\<in>set articles. objs s x ''sentiment'' \<noteq> None"
  shows "\<exists>s'. adjust_subjectivity s articles = Inr (s', articles) \<and>
     adjust_subjectivity s' articles = Inr (s', articles)"
proof -
  let ?s' = "s\<lparr>objs := adjusted s articles\<rparr>"
  have 1: "adjust_loop s articles = Inr ?s'"
    by (rule adjust_loop_result [OF assms])
  have "\<forall>x\<in>set articles. objs ?s' x ''sentiment'' \<noteq> None"
    using assms by (simp add: adjusted_def)
  then have 2: "adjust_loop ?s' articles = Inr (?s'\<lparr>objs := adjusted ?s' articles\<rparr>)"
    by (rule adjust_loop_result)
  have "adjusted ?s' articles = adjusted s articles"
    by (auto simp: adjusted_def fun_eq_iff)
  then have "?s'\<lparr>objs := adjusted ?s' articles\<rparr> = ?s'"
    by simp
  then show ?thesis
    using 1 2 by (simp add: adjust_subjectivity_def)
qed

theorem adjust_subjectivity_idempotent_witness:
  "\<exists>s'. adjust_subjectivity example_scored [1, 0] = Inr (s', [1, 0]) \<and>
     adjust_subjectivity s' [1, 0] = Inr (s', [1, 0])"
proof -
  have h: "\<forall>x\<in>set [1, 0]. objs example_scored x ''sentiment'' \<noteq> None"
    by (simp add: example_scored_def)
  show ?thesis
    by (rule adjust_subjectivity_idempotent [OF h])
qed

section \<open>Properties of \<open>filter_articles_by_keywords\<close>\<close>

lemma any_keyword_str:
  "any_keyword lower (PStr t) (PStr d) keywords =
     Inr (list_ex (\<lambda>keyword. occurs_in lower keyword t \<or> occurs_in lower keyword d) keywords)"
  by (induction "keywords") (auto simp: occurs_in_def)

lemma get_default_text:
  "str_or_absent d k \<Longrightarrow> get_default d k (PStr []) = PStr (text_field d k)"
  by (auto simp: str_or_absent_def get_default_def text_field_def is_str_def
           split: option.splits pyval.splits)

lemma filter_loop_str:
  "\<forall>x\<in>set xs. str_or_absent (objs s x) ''title'' \<and> str_or_absent (objs s x) ''description'' \<Longrightarrow>
   filter_loop lower s acc xs keywords =
     Inr (acc @ filter (\<lambda>x. keyword_match lower keywords (objs s x)) xs)"
  by (induction xs arbitrary: acc)
     (simp_all add: get_default_text any_keyword_str keyword_match_def)

text \<open>
  C6. For every list of articles whose \<open>title\<close> and \<open>description\<close> are strings
  where present, and every list of keywords, \<open>filter_articles_by_keywords\<close> returns
  without error exactly the articles for which some keyword occurs, after lower-casing of
  both, as a substring of the title or of the description, an absent field counting as the
  empty string; the articles are in their input order and the store is unchanged.
\<close>

theorem filter_articles_by_keywords_subsequence:
  assumes "\<forall>x\<in>set articles.
     str_or_absent (objs s x) ''title'' \<and> str_or_absent (objs s x) ''description''"
  shows "filter_articles_by_keywords lower s articles keywords =
     Inr (s, filter (\<lambda>x. keyword_match lower keywords (objs s x)) articles)"
  using filter_loop_str [OF assms, of lower "[]" "keywords"]
  by (simp add: filter_articles_by_keywords_def)

theorem filter_articles_by_keywords_subsequence_witness:
  "filter_articles_by_keywords example_lower example_store [1, 0, 2] keywords_rzd =
     Inr (example_store, [0]) \<and>
   filter (\<lambda>x. keyword_match example_lower keywords_rzd (objs example_store x)) [1, 0, 2] = [0]"
proof -
  have h: "\<forall>x\<in>set [1, 0, 2]. str_or_absent (objs example_store x) ''title'' \<and>
      str_or_absent (objs example_store x) ''description''"
    by (simp add: example_store_def str_or_absent_def is_str_def)
  have e: "filter (\<lambda>x. keyword_match example_lower keywords_rzd (objs example_store x)) [1, 0, 2] = [0]"
    by (simp add: keyword_match_def occurs_in_def text_field_def example_store_def
          example_lower_def example_tender_def keywords_rzd_def sublist_Cons_right)
  show ?thesis
    using filter_articles_by_keywords_subsequence [OF h, of example_lower keywords_rzd] e
    by simp
qed

text \<open>What the loop returns, whatever the values of the fields are.\<close>

lemma filter_loop_filter:
  "filter_loop lower s acc xs keywords = Inr out \<Longrightarrow>
   out = acc @ filter (\<lambda>x. any_keyword lower (get_default (objs s x) ''title'' (PStr []))
                       (get_default (objs s x) ''description'' (PStr [])) keywords = Inr True) xs"
proof (induction xs arbitrary: acc)
  case Nil
  then show ?case by simp
next
  case (Cons a xs)
  let ?m = "any_keyword lower (get_default (objs s a) ''title'' (PStr []))
              (get_default (objs s a) ''description'' (PStr [])) keywords"
  from Cons.prems obtain b where b: "?m = Inr b"
    and rest: "filter_loop lower s (if b then acc @ [a] else acc) xs keywords = Inr out"
    by (auto simp: Let_def split: sum.splits)
  show ?case
    using Cons.IH [OF rest] b by (cases b) simp_all
qed

section \<open>The order of \<open>published\<close> after the sort\<close>

lemma adjust_loop_Inr:
  "adjust_loop s xs = Inr s' \<Longrightarrow> s' = s\<lparr>objs := adjusted s xs\<rparr>"
  using adjust_loop_result [OF adjust_loop_error, of s xs s'] by simp

lemma adjusted_other_key:
  "k \<noteq> ''subjectivity'' \<Longrightarrow> adjusted s xs x k = objs s x k"
  by (simp add: adjusted_def)

lemma in_published_order_cong:
  "(\<And>x. objs s' x ''published'' = objs s x ''published'') \<Longrightarrow>
   in_published_order s' xs = in_published_order s xs"
  by (simp add: in_published_order_def published_str_def)

text \<open>
  C8. For every list of articles in non-increasing order of \<open>published\<close>, what
  \<open>analyze_sentiment\<close>, \<open>adjust_subjectivity\<close> and
  \<open>filter_articles_by_keywords\<close> (for any keywords) return is in non-increasing order
  of \<open>published\<close> in the store they return.
\<close>

theorem later_stages_keep_published_order:
  assumes "in_published_order s articles"
  shows "(analyze_sentiment sentiment_model s articles = Inr (s1, out1) \<longrightarrow>
            in_published_order s1 out1) \<and>
         (adjust_subjectivity s articles = Inr (s2, out2) \<longrightarrow>
            in_published_order s2 out2) \<and>
         (filter_articles_by_keywords lower s articles keywords = Inr (s3, out3) \<longrightarrow>
            in_published_order s3 out3)"
proof (intro conjI impI)
  assume "analyze_sentiment sentiment_model s articles = Inr (s1, out1)"
  then have l: "analyze_loop sentiment_model s articles = Inr s1" and o: "out1 = articles"
    by (auto simp: analyze_sentiment_def split: sum.splits)
  have "objs s1 x ''published'' = objs s x ''published''" for x
    using analyze_loop_frame [OF l] by simp
  then have "in_published_order s1 articles = in_published_order s articles"
    by (rule in_published_order_cong)
  then show "in_published_order s1 out1"
    using assms o by simp
next
  assume "adjust_subjectivity s articles = Inr (s2, out2)"
  then have l: "adjust_loop s articles = Inr s2" and o: "out2 = articles"
    by (auto simp: adjust_subjectivity_def split: sum.splits)
  have "objs s2 x ''published'' = objs s x ''published''" for x
    using adjust_loop_Inr [OF l] by (simp add: adjusted_other_key)
  then have "in_published_order s2 articles = in_published_order s articles"
    by (rule in_published_order_cong)
  then show "in_published_order s2 out2"
    using assms o by simp
next
  assume "filter_articles_by_keywords lower s articles keywords = Inr (s3, out3)"
  then have l: "filter_loop lower s [] articles keywords = Inr out3" and o: "s3 = s"
    by (auto simp: filter_articles_by_keywords_def split: sum.splits)
  show "in_published_order s3 out3"
    using filter_loop_filter [OF l] assms o
    by (simp add: in_published_order_def sorted_wrt_filter)
qed

theorem later_stages_keep_published_order_witness:
  "in_published_order example_scored [1, 0] \<and>
   (\<exists>s1. analyze_sentiment example_model example_scored [1, 0] = Inr (s1, [1, 0]) \<and>
      in_published_order s1 [1, 0]) \<and>
   (\<exists>s2. adjust_subjectivity example_scored [1, 0] = Inr (s2, [1, 0]) \<and>
      in_published_order s2 [1, 0]) \<and>
   filter_articles_by_keywords example_lower example_scored [1, 0] keywords_rzd =
     Inr (example_scored, [0]) \<and>
   in_published_order example_scored [0]"
proof -
  have h: "in_published_order example_scored [1, 0]"
    by (simp add: in_published_order_def published_str_def example_scored_def)
  have a: "\<exists>s1. analyze_sentiment example_model example_scored [1, 0] = Inr (s1, [1, 0])"
    by (simp add: analyze_sentiment_def getitem_def example_scored_def example_model_def
          setitem_def)
  have b: "\<exists>s2. adjust_subjectivity example_scored [1, 0] = Inr (s2, [1, 0])"
    by (simp add: adjust_subjectivity_def getitem_def example_scored_def setitem_def)
  have c: "filter_articles_by_keywords example_lower example_scored [1, 0] keywords_rzd =
     Inr (example_scored, [0])"
    by (simp add: filter_articles_by_keywords_def get_default_def example_scored_def
          example_lower_def example_tender_def keywords_rzd_def sublist_Cons_right)
  from a obtain s1 where a1: "analyze_sentiment example_model example_scored [1, 0] = Inr (s1, [1, 0])"
    by blast
  from b obtain s2 where b1: "adjust_subjectivity example_scored [1, 0] = Inr (s2, [1, 0])"
    by blast
  show ?thesis
    using later_stages_keep_published_order [OF h, of example_model s1 "[1, 0]" s2 "[1, 0]"
        example_lower keywords_rzd example_scored "[0]"] h a1 b1 c
    by blast
qed

section \<open>Properties of \<open>main\<close>\<close>

lemma fetched_articles_fetched:
  "fetched_articles s raws = Inr (s', rs) \<Longrightarrow> fetched s old \<Longrightarrow>
   fetched s' (old @ rs) \<and> calls s' = calls s"
proof (induction raws arbitrary: s old rs)
  case Nil
  then show ?case by simp
next
  case (Cons a raws)
  from Cons.prems(1) obtain t u p rs' where
    t: "a ''title'' = Some t" and u: "a ''url'' = Some u" and p: "a ''publishedAt'' = Some p"
    and rest: "fetched_articles
        (s\<lparr>objs := (objs s)(nxt s := [''title'' \<mapsto> t, ''link'' \<mapsto> u, ''published'' \<mapsto> p]),
           nxt := Suc (nxt s)\<rparr>) raws = Inr (s', rs')"
    and rs: "rs = nxt s # rs'"
    by (auto simp: getitem_def new_dict_def split: option.splits sum.splits)
  let ?s1 = "s\<lparr>objs := (objs s)(nxt s := [''title'' \<mapsto> t, ''link'' \<mapsto> u, ''published'' \<mapsto> p]),
           nxt := Suc (nxt s)\<rparr>"
  have "fetched ?s1 (old @ [nxt s])"
    unfolding fetched_def
  proof (intro ballI)
    fix r
    assume "r \<in> set (old @ [nxt s])"
    then consider "r \<in> set old" | "r = nxt s"
      by auto
    then show "r < nxt ?s1 \<and> dom (objs ?s1 r) = {''title'', ''link'', ''published''}"
    proof cases
      case 1
      then have "r < nxt s" and "dom (objs s r) = {''title'', ''link'', ''published''}"
        using Cons.prems(2) by (simp_all add: fetched_def)
      then show ?thesis
        by simp
    next
      case 2
      have "dom [''title'' \<mapsto> t, ''link'' \<mapsto> u, ''published'' \<mapsto> p] =
          {''title'', ''link'', ''published''}"
        by (simp add: insert_commute)
      then show ?thesis
        using 2 by simp
    qed
  qed
  from Cons.IH [OF rest this] show ?case
    by (simp add: rs)
qed

lemma fetch_news_fetched:
  assumes "fetch_news session_get s query = Inr (s', rs)" and "fetched s old"
  shows "fetched s' (old @ rs) \<and> calls s' = calls s"
proof (cases "session_get query")
  case (GetRaises e)
  then show ?thesis
    using assms by (simp add: fetch_news_def)
next
  case (GetReturns r)
  show ?thesis
  proof (cases "raise_for_status r")
    case True
    then show ?thesis
      using assms GetReturns by (simp add: fetch_news_def)
  next
    case False
    then obtain body where
      "fetched_articles s (case body of None \<Rightarrow> [] | Some articles \<Rightarrow> articles) = Inr (s', rs)"
      using assms GetReturns by (auto simp: fetch_news_def split: option.splits)
    then show ?thesis
      using fetched_articles_fetched assms(2) by blast
  qed
qed

lemma filter_and_sort_articles_Inr:
  "filter_and_sort_articles s xs = Inr (s', out) \<Longrightarrow> s' = s \<and> mset out = mset xs"
  by (auto simp: filter_and_sort_articles_def sorted_reverse_mset
           split: sum.splits if_splits)

lemma analyze_sentiment_Inr:
  "analyze_sentiment clf s xs = Inr (s', out) \<Longrightarrow> out = xs \<and> analyze_loop clf s xs = Inr s'"
  by (auto simp: analyze_sentiment_def split: sum.splits)

lemma adjust_subjectivity_Inr:
  "adjust_subjectivity s xs = Inr (s', out) \<Longrightarrow> out = xs \<and> adjust_loop s xs = Inr s'"
  by (auto simp: adjust_subjectivity_def split: sum.splits)

lemma filter_articles_by_keywords_Inr:
  "filter_articles_by_keywords lower s xs kws = Inr (s', out) \<Longrightarrow>
   s' = s \<and> filter_loop lower s [] xs kws = Inr out"
  by (auto simp: filter_articles_by_keywords_def split: sum.splits)

text \<open>The stages of a run of \<open>main\<close> that returns.\<close>

lemma main_stages:
  assumes "main sentiment_model lower session_get s0 = Inr (s', result)"
  shows "\<exists>s1 s2 s3 s5 vish_news high_speed_news russian_railways_news unique_articles
      sorted_articles filtered_vish filtered_high_speed filtered_rzd.
    fetch_vish_news session_get s0 = Inr (s1, vish_news) \<and>
    fetch_high_speed_railways session_get s1 = Inr (s2, high_speed_news) \<and>
    fetch_russian_railways session_get s2 = Inr (s3, russian_railways_news) \<and>
    deduplicate s3 (vish_news @ high_speed_news @ russian_railways_news) = Inr unique_articles \<and>
    filter_and_sort_articles s3 unique_articles = Inr (s3, sorted_articles) \<and>
    analyze_sentiment sentiment_model s3 sorted_articles = Inr (s5, sorted_articles) \<and>
    adjust_subjectivity s5 sorted_articles = Inr (s', sorted_articles) \<and>
    filter_articles_by_keywords lower s' sorted_articles keywords_vish = Inr (s', filtered_vish) \<and>
    filter_articles_by_keywords lower s' sorted_articles keywords_high_speed =
      Inr (s', filtered_high_speed) \<and>
    filter_articles_by_keywords lower s' sorted_articles keywords_rzd = Inr (s', filtered_rzd) \<and>
    result =
      [(''unique_articles'', unique_articles),
       (''analyzed_articles'', sorted_articles),
       (''filtered_vish'', filtered_vish),
       (''filtered_high_speed'', filtered_high_speed),
       (''filtered_rzd'', filtered_rzd),
       (''final_articles'', filtered_vish @ filtered_high_speed @ filtered_rzd)]"
proof -
  note m = assms [unfolded main_def Let_def]
  obtain s1 vish_news where
    1: "fetch_vish_news session_get s0 = Inr (s1, vish_news)"
    using m by (cases "fetch_vish_news session_get s0") auto
  note m1 = m [unfolded 1 sum.case prod.case]
  obtain s2 high_speed_news where
    2: "fetch_high_speed_railways session_get s1 = Inr (s2, high_speed_news)"
    using m1 by (cases "fetch_high_speed_railways session_get s1") auto
  note m2 = m1 [unfolded 2 sum.case prod.case]
  obtain s3 russian_railways_news where
    3: "fetch_russian_railways session_get s2 = Inr (s3, russian_railways_news)"
    using m2 by (cases "fetch_russian_railways session_get s2") auto
  note m3 = m2 [unfolded 3 sum.case prod.case]
  let ?all = "vish_news @ high_speed_news @ russian_railways_news"
  obtain unique_articles where
    4: "deduplicate s3 ?all = Inr unique_articles"
    using m3 by (cases "deduplicate s3 ?all") auto
  note m4 = m3 [unfolded 4 sum.case prod.case]
  obtain s4 sorted_articles where
    5: "filter_and_sort_articles s3 unique_articles = Inr (s4, sorted_articles)"
    using m4 by (cases "filter_and_sort_articles s3 unique_articles") auto
  note m5 = m4 [unfolded 5 sum.case prod.case]
  obtain s5 analyzed_articles where
    6: "analyze_sentiment sentiment_model s4 sorted_articles = Inr (s5, analyzed_articles)"
    using m5 by (cases "analyze_sentiment sentiment_model s4 sorted_articles") auto
  note m6 = m5 [unfolded 6 sum.case prod.case]
  obtain s6 adjusted_articles where
    7: "adjust_subjectivity s5 analyzed_articles = Inr (s6, adjusted_articles)"
    using m6 by (cases "adjust_subjectivity s5 analyzed_articles") auto
  note m7 = m6 [unfolded 7 sum.case prod.case]
  obtain s7 filtered_vish where
    8: "filter_articles_by_keywords lower s6 adjusted_articles keywords_vish = Inr (s7, filtered_vish)"
    using m7 by (cases "filter_articles_by_keywords lower s6 adjusted_articles keywords_vish") auto
  note m8 = m7 [unfolded 8 sum.case prod.case]
  obtain s8 filtered_high_speed where
    9: "filter_articles_by_keywords lower s7 adjusted_articles keywords_high_speed =
          Inr (s8, filtered_high_speed)"
    using m8
    by (cases "filter_articles_by_keywords lower s7 adjusted_articles keywords_high_speed") auto
  note m9 = m8 [unfolded 9 sum.case prod.case]
  obtain s9 filtered_rzd where
    10: "filter_articles_by_keywords lower s8 adjusted_articles keywords_rzd = Inr (s9, filtered_rzd)"
    using m9 by (cases "filter_articles_by_keywords lower s8 adjusted_articles keywords_rzd") auto
  note m10 = m9 [unfolded 10 sum.case prod.case]
  have r: "s' = s9" "result =
      [(''unique_articles'', unique_articles),
       (''analyzed_articles'', analyzed_articles),
       (''filtered_vish'', filtered_vish),
       (''filtered_high_speed'', filtered_high_speed),
       (''filtered_rzd'', filtered_rzd),
       (''final_articles'', filtered_vish @ filtered_high_speed @ filtered_rzd)]"
    using m10 by simp_all
  have e: "s4 = s3" "analyzed_articles = sorted_articles" "adjusted_articles = sorted_articles"
    "s7 = s6" "s8 = s7" "s9 = s8"
    using filter_and_sort_articles_Inr [OF 5] analyze_sentiment_Inr [OF 6]
      adjust_subjectivity_Inr [OF 7] filter_articles_by_keywords_Inr [OF 8]
      filter_articles_by_keywords_Inr [OF 9] filter_articles_by_keywords_Inr [OF 10]
    by simp_all
  have e': "s6 = s'" "s7 = s'" "s8 = s'" "s9 = s'"
    using e r by simp_all
  show ?thesis
    using 1 2 3 4 5 6 7 8 9 10 r(2) unfolding e e' by blast
qed

lemma main_of_stages:
  assumes "fetch_vish_news session_get s0 = Inr (s1, vish_news)"
    and "fetch_high_speed_railways session_get s1 = Inr (s2, high_speed_news)"
    and "fetch_russian_railways session_get s2 = Inr (s3, russian_railways_news)"
    and "deduplicate s3 (vish_news @ high_speed_news @ russian_railways_news) = Inr unique_articles"
    and "filter_and_sort_articles s3 unique_articles = Inr (s3, sorted_articles)"
    and "analyze_sentiment sentiment_model s3 sorted_articles = Inr (s5, sorted_articles)"
    and "adjust_subjectivity s5 sorted_articles = Inr (s', sorted_articles)"
    and "filter_articles_by_keywords lower s' sorted_articles keywords_vish = Inr (s', filtered_vish)"
    and "filter_articles_by_keywords lower s' sorted_articles keywords_high_speed =
      Inr (s', filtered_high_speed)"
    and "filter_articles_by_keywords lower s' sorted_articles keywords_rzd = Inr (s', filtered_rzd)"
  shows "main sentiment_model lower session_get s0 =
    Inr (s',
      [(''unique_articles'', unique_articles),
       (''analyzed_articles'', sorted_articles),
       (''filtered_vish'', filtered_vish),
       (''filtered_high_speed'', filtered_high_speed),
       (''filtered_rzd'', filtered_rzd),
       (''final_articles'', filtered_vish @ filtered_high_speed @ filtered_rzd)])"
  unfolding main_def Let_def assms sum.case prod.case ..

lemma count_list_distinct:
  "distinct xs \<Longrightarrow> count_list xs x = (if x \<in> set xs then 1 else 0)"
  by (induction xs) auto

lemma count_list_buckets:
  assumes "distinct a" and "distinct b" and "distinct c"
  shows "count_list (a @ b @ c) x = length (filter (\<lambda>bucket. x \<in> set bucket) [a, b, c])"
  using assms by (simp add: count_list_distinct)

lemma deduplicate_distinct:
  assumes "deduplicate s all_articles = Inr unique_articles"
  shows "distinct unique_articles"
  using deduplicate_distinct_links [OF assms] by (simp add: distinct_map)

lemma filter_articles_by_keywords_distinct:
  assumes "filter_articles_by_keywords lower s xs kws = Inr (s', out)" and "distinct xs"
  shows "distinct out"
proof -
  have "filter_loop lower s [] xs kws = Inr out"
    using filter_articles_by_keywords_Inr [OF assms(1)] by simp
  from filter_loop_filter [OF this] show ?thesis
    using assms(2) by simp
qed

lemma example_fetch:
  "\<exists>s1. fetch_news example_get example_empty query_vish = Inr (s1, [0, 1])"
  by (simp add: fetch_news_def example_get_def example_empty_def
        raise_for_status_def getitem_def new_dict_def)

lemma example_run:
  "\<exists>s'. main example_model example_lower example_get example_empty = Inr (s', example_result)"
  by (simp add: main_def fetch_vish_news_def fetch_high_speed_railways_def
        fetch_russian_railways_def fetch_news_def example_get_def example_empty_def
        query_vish_def query_high_speed_def query_rzd_def
        raise_for_status_def getitem_def new_dict_def deduplicate_def dict_values_def
        filter_and_sort_articles_def is_str_def sorted_reverse_def published_str_def
        analyze_sentiment_def setitem_def example_model_def example_tender_def
        adjust_subjectivity_def NEUTRAL_def filter_articles_by_keywords_def get_default_def
        keywords_vish_def keywords_high_speed_def keywords_rzd_def example_lower_def
        sublist_Cons_right example_result_def)

text \<open>
  C7. \<open>main\<close> returns exactly when the three fetches (in the order of the three
  queries, each in the store the previous one left), the deduplication of their
  concatenation, the sort, the scoring, the adjustment and the three keyword filters (in
  the order \<open>keywords_vish\<close>, \<open>keywords_high_speed\<close>, \<open>keywords_rzd\<close>) all
  return, each stage on the output of the one before; the result then holds the six named
  collections, \<open>final_articles\<close> is \<open>filtered_vish @ filtered_high_speed @
  filtered_rzd\<close>, and an article occurs in it once per bucket that contains it.
\<close>

theorem main_pipeline:
  "main sentiment_model lower session_get s0 = Inr (s', result) \<longleftrightarrow>
   (\<exists>s1 s2 s3 s5 vish_news high_speed_news russian_railways_news unique_articles
      sorted_articles filtered_vish filtered_high_speed filtered_rzd.
    fetch_vish_news session_get s0 = Inr (s1, vish_news) \<and>
    fetch_high_speed_railways session_get s1 = Inr (s2, high_speed_news) \<and>
    fetch_russian_railways session_get s2 = Inr (s3, russian_railways_news) \<and>
    deduplicate s3 (vish_news @ high_speed_news @ russian_railways_news) = Inr unique_articles \<and>
    filter_and_sort_articles s3 unique_articles = Inr (s3, sorted_articles) \<and>
    analyze_sentiment sentiment_model s3 sorted_articles = Inr (s5, sorted_articles) \<and>
    adjust_subjectivity s5 sorted_articles = Inr (s', sorted_articles) \<and>
    filter_articles_by_keywords lower s' sorted_articles keywords_vish = Inr (s', filtered_vish) \<and>
    filter_articles_by_keywords lower s' sorted_articles keywords_high_speed =
      Inr (s', filtered_high_speed) \<and>
    filter_articles_by_keywords lower s' sorted_articles keywords_rzd = Inr (s', filtered_rzd) \<and>
    result =
      [(''unique_articles'', unique_articles),
       (''analyzed_articles'', sorted_articles),
       (''filtered_vish'', filtered_vish),
       (''filtered_high_speed'', filtered_high_speed),
       (''filtered_rzd'', filtered_rzd),
       (''final_articles'', filtered_vish @ filtered_high_speed @ filtered_rzd)] \<and>
    (\<forall>x. count_list (filtered_vish @ filtered_high_speed @ filtered_rzd) x =
       length (filter (\<lambda>bucket. x \<in> set bucket)
         [filtered_vish, filtered_high_speed, filtered_rzd])))"
  (is "?L \<longleftrightarrow> ?R")
proof
  assume ?L
  from main_stages [OF this] obtain s1 s2 s3 s5 vish_news high_speed_news russian_railways_news
      unique_articles sorted_articles filtered_vish filtered_high_speed filtered_rzd
    where st:
    "fetch_vish_news session_get s0 = Inr (s1, vish_news)"
    "fetch_high_speed_railways session_get s1 = Inr (s2, high_speed_news)"
    "fetch_russian_railways session_get s2 = Inr (s3, russian_railways_news)"
    "deduplicate s3 (vish_news @ high_speed_news @ russian_railways_news) = Inr unique_articles"
    "filter_and_sort_articles s3 unique_articles = Inr (s3, sorted_articles)"
    "analyze_sentiment sentiment_model s3 sorted_articles = Inr (s5, sorted_articles)"
    "adjust_subjectivity s5 sorted_articles = Inr (s', sorted_articles)"
    "filter_articles_by_keywords lower s' sorted_articles keywords_vish = Inr (s', filtered_vish)"
    "filter_articles_by_keywords lower s' sorted_articles keywords_high_speed =
      Inr (s', filtered_high_speed)"
    "filter_articles_by_keywords lower s' sorted_articles keywords_rzd = Inr (s', filtered_rzd)"
    "result =
      [(''unique_articles'', unique_articles),
       (''analyzed_articles'', sorted_articles),
       (''filtered_vish'', filtered_vish),
       (''filtered_high_speed'', filtered_high_speed),
       (''filtered_rzd'', filtered_rzd),
       (''final_articles'', filtered_vish @ filtered_high_speed @ filtered_rzd)]"
    by blast
  have "mset sorted_articles = mset unique_articles"
    using filter_and_sort_articles_Inr [OF st(5)] by simp
  then have d: "distinct sorted_articles"
    using deduplicate_distinct [OF st(4)] by (metis distinct_count_atmost_1 set_mset_mset)
  have "\<forall>x. count_list (filtered_vish @ filtered_high_speed @ filtered_rzd) x =
       length (filter (\<lambda>bucket. x \<in> set bucket)
         [filtered_vish, filtered_high_speed, filtered_rzd])"
    using count_list_buckets [OF filter_articles_by_keywords_distinct [OF st(8) d]
      filter_articles_by_keywords_distinct [OF st(9) d]
      filter_articles_by_keywords_distinct [OF st(10) d]]
    by blast
  with st show ?R
    by blast
next
  assume ?R
  then show ?L
    using main_of_stages by blast
qed

theorem main_pipeline_witness:
  "\<exists>s'. main example_model example_lower example_get example_empty = Inr (s', example_result) \<and>
     (\<forall>x. count_list ([4] @ [2] @ [2, 3]) x =
        length (filter (\<lambda>bucket. x \<in> set bucket) [[4], [2], [2, 3 :: ref]]))"
proof -
  obtain s' where
    e: "main example_model example_lower example_get example_empty = Inr (s', example_result)"
    using example_run by blast
  from main_pipeline [THEN iffD1, OF e]
  obtain filtered_vish filtered_high_speed filtered_rzd unique_articles sorted_articles where
    r: "example_result =
      [(''unique_articles'', unique_articles),
       (''analyzed_articles'', sorted_articles),
       (''filtered_vish'', filtered_vish),
       (''filtered_high_speed'', filtered_high_speed),
       (''filtered_rzd'', filtered_rzd),
       (''final_articles'', filtered_vish @ filtered_high_speed @ filtered_rzd)]"
    and c: "\<forall>x. count_list (filtered_vish @ filtered_high_speed @ filtered_rzd) x =
       length (filter (\<lambda>bucket. x \<in> set bucket)
         [filtered_vish, filtered_high_speed, filtered_rzd])"
    by blast
  from r have "filtered_vish = [4]" "filtered_high_speed = [2]" "filtered_rzd = [2, 3]"
    unfolding example_result_def by (simp_all only: list.inject prod.inject)
  with c have "\<forall>x. count_list ([4] @ [2] @ [2, 3]) x =
        length (filter (\<lambda>bucket. x \<in> set bucket) [[4], [2], [2, 3 :: ref]])"
    by simp
  with e show ?thesis
    by (intro exI [of _ s'] conjI)
qed

section \<open>The description field\<close>

lemma any_keyword_no_description:
  "any_keyword lower title (PStr []) kws = Inr b \<Longrightarrow> lower [] = [] \<Longrightarrow>
   b = list_ex (\<lambda>keyword. occurs_in lower keyword (case title of PStr t \<Rightarrow> t | _ \<Rightarrow> [])) kws"
proof (induction kws)
  case Nil
  then show ?case by simp
next
  case (Cons k kws)
  from Cons.prems(1) obtain t where t: "title = PStr t"
    by (cases title) simp_all
  show ?case
  proof (cases "sublist (lower k) (lower t)")
    case True
    then show ?thesis
      using Cons.prems t by (simp add: occurs_in_def)
  next
    case False
    then have "lower k \<noteq> []"
      by auto
    then have "any_keyword lower title (PStr []) kws = Inr b"
      using Cons.prems False t by simp
    from Cons.IH [OF this Cons.prems(2)] show ?thesis
      using False t by (simp add: occurs_in_def)
  qed
qed

lemma filter_loop_succeeds:
  "filter_loop lower s acc xs kws = Inr out \<Longrightarrow>
   \<forall>x\<in>set xs. \<exists>b. any_keyword lower (get_default (objs s x) ''title'' (PStr []))
                       (get_default (objs s x) ''description'' (PStr [])) kws = Inr b"
proof (induction xs arbitrary: acc)
  case Nil
  then show ?case by simp
next
  case (Cons a xs)
  let ?m = "any_keyword lower (get_default (objs s a) ''title'' (PStr []))
              (get_default (objs s a) ''description'' (PStr [])) kws"
  from Cons.prems obtain b where b: "?m = Inr b"
    and rest: "filter_loop lower s (if b then acc @ [a] else acc) xs kws = Inr out"
    by (auto simp: Let_def split: sum.splits)
  show ?case
    using Cons.IH [OF rest] b by simp
qed

lemma text_field_get_default:
  "(case get_default d k (PStr []) of PStr t \<Rightarrow> t | _ \<Rightarrow> []) = text_field d k"
  by (simp add: get_default_def text_field_def split: option.splits pyval.splits)

lemma filter_loop_no_description:
  assumes l: "filter_loop lower s [] xs kws = Inr out"
    and nd: "\<forall>x\<in>set xs. objs s x ''description'' = None"
    and lw: "lower [] = []"
  shows "out = filter (\<lambda>x. title_match lower kws (objs s x)) xs"
proof -
  have "(any_keyword lower (get_default (objs s x) ''title'' (PStr []))
           (get_default (objs s x) ''description'' (PStr [])) kws = Inr True) =
        title_match lower kws (objs s x)" if x: "x \<in> set xs" for x
  proof -
    have d: "get_default (objs s x) ''description'' (PStr []) = PStr []"
      using nd x by (simp add: get_default_def)
    obtain b where b: "any_keyword lower (get_default (objs s x) ''title'' (PStr []))
           (PStr []) kws = Inr b"
      using filter_loop_succeeds [OF l] x d by fastforce
    show ?thesis
      using any_keyword_no_description [OF b lw]
      by (simp add: d b title_match_def text_field_get_default)
  qed
  then have "filter (\<lambda>x. any_keyword lower (get_default (objs s x) ''title'' (PStr []))
           (get_default (objs s x) ''description'' (PStr [])) kws = Inr True) xs =
      filter (\<lambda>x. title_match lower kws (objs s x)) xs"
    by (intro filter_cong) simp_all
  then show ?thesis
    using filter_loop_filter [OF l] by simp
qed

lemma analyze_loop_dom:
  assumes "analyze_loop clf s xs = Inr s'" and "x \<in> set xs"
  shows "dom (objs s' x) = insert ''sentiment'' (insert ''subjectivity'' (dom (objs s x)))"
proof (rule set_eqI)
  fix k
  have w: "objs s' x ''sentiment'' \<noteq> None" "objs s' x ''subjectivity'' \<noteq> None"
    using analyze_loop_written [OF assms(1)] assms(2) by fastforce+
  have f: "k \<noteq> ''sentiment'' \<Longrightarrow> k \<noteq> ''subjectivity'' \<Longrightarrow> objs s' x k = objs s x k"
    using analyze_loop_frame [OF assms(1)] by simp
  show "k \<in> dom (objs s' x) \<longleftrightarrow>
      k \<in> insert ''sentiment'' (insert ''subjectivity'' (dom (objs s x)))"
  proof (cases "k = ''sentiment'' \<or> k = ''subjectivity''")
    case True
    then show ?thesis using w by (auto simp: domIff)
  next
    case False
    then show ?thesis using f by (simp add: domIff)
  qed
qed

lemma adjusted_dom:
  "''subjectivity'' \<in> dom (objs s x) \<Longrightarrow> dom (adjusted s xs x) = dom (objs s x)"
  by (simp add: adjusted_def insert_absorb)

text \<open>
  C10. Every article that \<open>fetch_news\<close> returns has exactly the keys \<open>title\<close>,
  \<open>link\<close> and \<open>published\<close>. So in every run of \<open>main\<close> that returns, with a
  lower-casing that maps the empty string to itself, no analyzed article has a
  \<open>description\<close>, the filter reads the empty string for it, and each bucket is the
  list of the analyzed articles whose title matches one of the bucket's keywords.
\<close>

theorem description_never_admits:
  "(fetch_news session_get s query = Inr (s1, new_articles) \<longrightarrow>
      (\<forall>r\<in>set new_articles. dom (objs s1 r) = {''title'', ''link'', ''published''})) \<and>
   (main sentiment_model lower session_get s0 = Inr (s', result) \<longrightarrow> lower [] = [] \<longrightarrow>
      (\<exists>unique_articles analyzed_articles.
         (\<forall>x\<in>set analyzed_articles.
            dom (objs s' x) =
              {''title'', ''link'', ''published'', ''sentiment'', ''subjectivity''} \<and>
            get_default (objs s' x) ''description'' (PStr []) = PStr []) \<and>
         result =
           [(''unique_articles'', unique_articles),
            (''analyzed_articles'', analyzed_articles),
            (''filtered_vish'',
               filter (\<lambda>x. title_match lower keywords_vish (objs s' x)) analyzed_articles),
            (''filtered_high_speed'',
               filter (\<lambda>x. title_match lower keywords_high_speed (objs s' x)) analyzed_articles),
            (''filtered_rzd'',
               filter (\<lambda>x. title_match lower keywords_rzd (objs s' x)) analyzed_articles),
            (''final_articles'',
               filter (\<lambda>x. title_match lower keywords_vish (objs s' x)) analyzed_articles @
               filter (\<lambda>x. title_match lower keywords_high_speed (objs s' x)) analyzed_articles @
               filter (\<lambda>x. title_match lower keywords_rzd (objs s' x)) analyzed_articles)]))"
proof (intro conjI impI)
  assume "fetch_news session_get s query = Inr (s1, new_articles)"
  moreover have "fetched s []"
    by (simp add: fetched_def)
  ultimately have "fetched s1 ([] @ new_articles)"
    using fetch_news_fetched by blast
  then show "\<forall>r\<in>set new_articles. dom (objs s1 r) = {''title'', ''link'', ''published''}"
    by (simp add: fetched_def)
next
  assume m: "main sentiment_model lower session_get s0 = Inr (s', result)" and lw: "lower [] = []"
  from main_stages [OF m] obtain s1 s2 s3 s5 vish_news high_speed_news russian_railways_news
      unique_articles sorted_articles filtered_vish filtered_high_speed filtered_rzd
    where st:
    "fetch_vish_news session_get s0 = Inr (s1, vish_news)"
    "fetch_high_speed_railways session_get s1 = Inr (s2, high_speed_news)"
    "fetch_russian_railways session_get s2 = Inr (s3, russian_railways_news)"
    "deduplicate s3 (vish_news @ high_speed_news @ russian_railways_news) = Inr unique_articles"
    "filter_and_sort_articles s3 unique_articles = Inr (s3, sorted_articles)"
    "analyze_sentiment sentiment_model s3 sorted_articles = Inr (s5, sorted_articles)"
    "adjust_subjectivity s5 sorted_articles = Inr (s', sorted_articles)"
    "filter_articles_by_keywords lower s' sorted_articles keywords_vish = Inr (s', filtered_vish)"
    "filter_articles_by_keywords lower s' sorted_articles keywords_high_speed =
      Inr (s', filtered_high_speed)"
    "filter_articles_by_keywords lower s' sorted_articles keywords_rzd = Inr (s', filtered_rzd)"
    "result =
      [(''unique_articles'', unique_articles),
       (''analyzed_articles'', sorted_articles),
       (''filtered_vish'', filtered_vish),
       (''filtered_high_speed'', filtered_high_speed),
       (''filtered_rzd'', filtered_rzd),
       (''final_articles'', filtered_vish @ filtered_high_speed @ filtered_rzd)]"
    by blast
  have "fetched s0 []"
    by (simp add: fetched_def)
  then have "fetched s1 ([] @ vish_news)"
    using fetch_news_fetched st(1) unfolding fetch_vish_news_def by blast
  then have "fetched s2 (([] @ vish_news) @ high_speed_news)"
    using fetch_news_fetched st(2) unfolding fetch_high_speed_railways_def by blast
  then have "fetched s3 ((([] @ vish_news) @ high_speed_news) @ russian_railways_news)"
    using fetch_news_fetched st(3) unfolding fetch_russian_railways_def by blast
  then have f3: "fetched s3 (vish_news @ high_speed_news @ russian_railways_news)"
    by simp
  have "set sorted_articles = set unique_articles"
    using filter_and_sort_articles_Inr [OF st(5)] by (metis set_mset_mset)
  then have sub: "set sorted_articles \<subseteq> set (vish_news @ high_speed_news @ russian_railways_news)"
    using deduplicate_subset [OF st(4)] by simp
  have l5: "analyze_loop sentiment_model s3 sorted_articles = Inr s5"
    using analyze_sentiment_Inr [OF st(6)] by simp
  have l6: "adjust_loop s5 sorted_articles = Inr s'"
    using adjust_subjectivity_Inr [OF st(7)] by simp
  have s': "objs s' = adjusted s5 sorted_articles"
    using adjust_loop_Inr [OF l6] by simp
  have doms: "dom (objs s' x) = {''title'', ''link'', ''published'', ''sentiment'', ''subjectivity''}"
    if x: "x \<in> set sorted_articles" for x
  proof -
    have 3: "dom (objs s3 x) = {''title'', ''link'', ''published''}"
      using f3 sub x unfolding fetched_def by blast
    have 5: "dom (objs s5 x) =
        insert ''sentiment'' (insert ''subjectivity'' {''title'', ''link'', ''published''})"
      using analyze_loop_dom [OF l5 x] unfolding 3 .
    then have "''subjectivity'' \<in> dom (objs s5 x)"
      by simp
    from adjusted_dom [OF this, of sorted_articles] have "dom (objs s' x) = dom (objs s5 x)"
      unfolding s' .
    then show ?thesis
      unfolding 5 by (simp add: insert_commute)
  qed
  have nod: "\<forall>x\<in>set sorted_articles. objs s' x ''description'' = None"
  proof
    fix x
    assume "x \<in> set sorted_articles"
    from doms [OF this] have "''description'' \<notin> dom (objs s' x)"
      by simp
    then show "objs s' x ''description'' = None"
      by (simp add: domIff)
  qed
  have fl: "filter_loop lower s' [] sorted_articles keywords_vish = Inr filtered_vish"
    "filter_loop lower s' [] sorted_articles keywords_high_speed = Inr filtered_high_speed"
    "filter_loop lower s' [] sorted_articles keywords_rzd = Inr filtered_rzd"
    using filter_articles_by_keywords_Inr [OF st(8)] filter_articles_by_keywords_Inr [OF st(9)]
      filter_articles_by_keywords_Inr [OF st(10)] by simp_all
  have r: "result =
           [(''unique_articles'', unique_articles),
            (''analyzed_articles'', sorted_articles),
            (''filtered_vish'',
               filter (\<lambda>x. title_match lower keywords_vish (objs s' x)) sorted_articles),
            (''filtered_high_speed'',
               filter (\<lambda>x. title_match lower keywords_high_speed (objs s' x)) sorted_articles),
            (''filtered_rzd'',
               filter (\<lambda>x. title_match lower keywords_rzd (objs s' x)) sorted_articles),
            (''final_articles'',
               filter (\<lambda>x. title_match lower keywords_vish (objs s' x)) sorted_articles @
               filter (\<lambda>x. title_match lower keywords_high_speed (objs s' x)) sorted_articles @
               filter (\<lambda>x. title_match lower keywords_rzd (objs s' x)) sorted_articles)]"
    unfolding st(11)
    using filter_loop_no_description [OF fl(1) nod lw]
      filter_loop_no_description [OF fl(2) nod lw]
      filter_loop_no_description [OF fl(3) nod lw]
    by simp
  have "\<forall>x\<in>set sorted_articles.
      dom (objs s' x) = {''title'', ''link'', ''published'', ''sentiment'', ''subjectivity''} \<and>
      get_default (objs s' x) ''description'' (PStr []) = PStr []"
    using doms nod by (simp add: get_default_def)
  with r show "\<exists>unique_articles analyzed_articles.
         (\<forall>x\<in>set analyzed_articles.
            dom (objs s' x) =
              {''title'', ''link'', ''published'', ''sentiment'', ''subjectivity''} \<and>
            get_default (objs s' x) ''description'' (PStr []) = PStr []) \<and>
         result =
           [(''unique_articles'', unique_articles),
            (''analyzed_articles'', analyzed_articles),
            (''filtered_vish'',
               filter (\<lambda>x. title_match lower keywords_vish (objs s' x)) analyzed_articles),
            (''filtered_high_speed'',
               filter (\<lambda>x. title_match lower keywords_high_speed (objs s' x)) analyzed_articles),
            (''filtered_rzd'',
               filter (\<lambda>x. title_match lower keywords_rzd (objs s' x)) analyzed_articles),
            (''final_articles'',
               filter (\<lambda>x. title_match lower keywords_vish (objs s' x)) analyzed_articles @
               filter (\<lambda>x. title_match lower keywords_high_speed (objs s' x)) analyzed_articles @
               filter (\<lambda>x. title_match lower keywords_rzd (objs s' x)) analyzed_articles)]"
    by blast
qed

theorem description_never_admits_witness:
  "\<exists>s1 s'.
     fetch_news example_get example_empty query_vish = Inr (s1, [0, 1]) \<and>
     dom (objs s1 1) = {''title'', ''link'', ''published''} \<and>
     main example_model example_lower example_get example_empty = Inr (s', example_result) \<and>
     example_lower [] = [] \<and>
     get_default (objs s' 1) ''description'' (PStr []) = PStr [] \<and>
     filter (\<lambda>x. title_match example_lower keywords_rzd (objs s' x)) [1, 2, 4, 3] = [2, 3]"
proof -
  obtain s1 where f: "fetch_news example_get example_empty query_vish = Inr (s1, [0, 1])"
    using example_fetch by blast
  obtain s' where
    e: "main example_model example_lower example_get example_empty = Inr (s', example_result)"
    using example_run by blast
  have l: "example_lower [] = []"
    by (simp add: example_lower_def)
  note t = description_never_admits [of example_get example_empty query_vish s1 "[0, 1]"
      example_model example_lower example_empty s' example_result]
  from t [THEN conjunct1, THEN mp, OF f]
  have 1: "dom (objs s1 1) = {''title'', ''link'', ''published''}"
    by (rule bspec) simp
  note t2 = t [THEN conjunct2, THEN mp, OF e, THEN mp, OF l]
  from t2 obtain unique_articles analyzed_articles where
    d0: "\<forall>x\<in>set analyzed_articles.
            dom (objs s' x) =
              {''title'', ''link'', ''published'', ''sentiment'', ''subjectivity''} \<and>
            get_default (objs s' x) ''description'' (PStr []) = PStr []"
    and r: "example_result =
           [(''unique_articles'', unique_articles),
            (''analyzed_articles'', analyzed_articles),
            (''filtered_vish'',
               filter (\<lambda>x. title_match example_lower keywords_vish (objs s' x)) analyzed_articles),
            (''filtered_high_speed'',
               filter (\<lambda>x. title_match example_lower keywords_high_speed (objs s' x)) analyzed_articles),
            (''filtered_rzd'',
               filter (\<lambda>x. title_match example_lower keywords_rzd (objs s' x)) analyzed_articles),
            (''final_articles'',
               filter (\<lambda>x. title_match example_lower keywords_vish (objs s' x)) analyzed_articles @
               filter (\<lambda>x. title_match example_lower keywords_high_speed (objs s' x)) analyzed_articles @
               filter (\<lambda>x. title_match example_lower keywords_rzd (objs s' x)) analyzed_articles)]"
    by (elim exE conjE)
  have d: "\<forall>x\<in>set analyzed_articles.
            get_default (objs s' x) ''description'' (PStr []) = PStr []"
    using d0 by (intro ballI) (drule (1) bspec, erule conjunct2)
  from r have a: "analyzed_articles = [1, 2, 4, 3]"
    and "filter (\<lambda>x. title_match example_lower keywords_rzd (objs s' x)) analyzed_articles = [2, 3]"
    unfolding example_result_def by (simp_all only: list.inject prod.inject)
  then have 2: "filter (\<lambda>x. title_match example_lower keywords_rzd (objs s' x)) [1, 2, 4, 3] = [2, 3]"
    by simp
  from d a have 3: "get_default (objs s' 1) ''description'' (PStr []) = PStr []"
    by simp
  show ?thesis
    by (intro exI [of _ s1] exI [of _ s'] conjI f 1 e l 3 2)
qed

end
